theory Spec2Isabelle
  imports Main "HOL-Library.Word"
begin

section \<open>Health aggregation (healthfx.go)\<close>

subsection \<open>Data\<close>

text \<open>
  A Go \<open>error\<close> returned by an indicator, or the package's sentinel
  \<open>ErrUnavailable = errors.New("err unavailable")\<close>. The sentinel is an exported
  variable, so an indicator may return it as well.
\<close>

datatype error = ErrUnavailable | IndicatorError string

fun Error :: "error \<Rightarrow> string" where
  "Error ErrUnavailable = ''err unavailable''"
| "Error (IndicatorError msg) = msg"

definition HealthStatusUp :: string where
  "HealthStatusUp = ''UP''"

definition HealthStatusDown :: string where
  "HealthStatusDown = ''DOWN''"

definition HealthUnavailable :: string where
  "HealthUnavailable = ''UNAVAILABLE''"

record HealthStatus =
  Status :: string
  Err :: "error option"

text \<open>
  \<open>'i\<close> is the identity of a \<open>HealthIndicator\<close> value: the key of the Go maps.
  The counters are \<open>*atomic.Int32\<close>, one fresh cell per key, so the map from an
  indicator to the 32-bit content of its cell describes them; \<open>sint\<close> reads a counter
  as Go does. A threshold is a Go \<open>int\<close>, kept as its mathematical value; the
  conversion \<open>int32(threshold)\<close> keeps the low 32 bits, which is \<open>word_of_int\<close>.
  Indicators are taken to be comparable values (pointers, as a rule), since Go panics on
  a map key that is not. The fields of \<open>Health\<close> are unexported, so no indicator
  writes them. The probes are modelled one call at a time (no two probes overlap).
\<close>

record 'i Health =
  checkers :: "'i list"
  maxNotReadyConfig :: "'i \<rightharpoonup> int"
  notReadyCount :: "'i \<rightharpoonup> 32 word"

subsection \<open>NewHealth\<close>

text \<open>
  The first argument says what an indicator declares: \<open>None\<close> when it does not
  implement \<open>ReadinessThresholder\<close>, \<open>Some t\<close> when \<open>ReadinessThreshold()\<close>
  returns \<open>t\<close> (the method is read as returning the same number at both of its calls).
\<close>

definition thresholdedReadinessReporters :: "('i \<Rightarrow> int option) \<Rightarrow> 'i list \<Rightarrow> 'i list" where
  "thresholdedReadinessReporters ReadinessThreshold cs =
     filter (\<lambda>s. case ReadinessThreshold s of None \<Rightarrow> False | Some t \<Rightarrow> 0 \<le> t) cs"

text \<open>
  The second loop of \<open>NewHealth\<close>. The type assertion
  \<open>reporters[i].(ReadinessThresholder)\<close> panics on an indicator without the method:
  the result \<open>None\<close>.
\<close>

fun prepare :: "('i \<Rightarrow> int option) \<Rightarrow> 'i list \<Rightarrow> 'i Health \<Rightarrow> 'i Health option" where
  "prepare ReadinessThreshold [] probe = Some probe"
| "prepare ReadinessThreshold (s # rest) probe =
     (case ReadinessThreshold s of
        None \<Rightarrow> None
      | Some t \<Rightarrow>
          prepare ReadinessThreshold rest
            (probe\<lparr>maxNotReadyConfig := (maxNotReadyConfig probe)(s \<mapsto> t),
                   notReadyCount := (notReadyCount probe)(s \<mapsto> 0)\<rparr>))"

definition NewHealth :: "('i \<Rightarrow> int option) \<Rightarrow> 'i list \<Rightarrow> 'i Health option" where
  "NewHealth ReadinessThreshold cs =
     prepare ReadinessThreshold (thresholdedReadinessReporters ReadinessThreshold cs)
       \<lparr>checkers = cs, maxNotReadyConfig = Map.empty, notReadyCount = Map.empty\<rparr>"

subsection \<open>The probes\<close>

text \<open>
  What one run of a probe's loop holds: the receiver \<open>*p\<close>, the local
  \<open>liveness\<close> or \<open>readiness\<close>, the map \<open>res\<close>, and the indicator methods
  invoked so far, oldest first (the calls are the probe's effect on the indicators).
\<close>

record 'i frame =
  receiver :: "'i Health"
  overall :: bool
  res :: "'i \<rightharpoonup> HealthStatus"
  invoked :: "'i list"

text \<open>
  A probe is given \<open>call\<close>: \<open>call k\<close> is what the method of \<open>p.checkers[k]\<close>
  returns when the loop reaches index \<open>k\<close> (\<open>None\<close> is \<open>nil\<close>). An indicator
  listed twice is called twice and may answer differently each time.
\<close>

definition calls :: "'i list \<Rightarrow> (nat \<Rightarrow> error option) \<Rightarrow> ('i \<times> error option) list" where
  "calls cs call = zip cs (map call [0..<length cs])"

text \<open>
  One iteration of the loop of \<open>Liveness\<close>. \<open>p.notReadyCount[l].Load()\<close> on a
  key that \<open>notReadyCount\<close> lacks dereferences \<open>nil\<close> and panics: the result \<open>None\<close>.
\<close>

definition Liveness_body :: "'i frame \<Rightarrow> 'i \<times> error option \<Rightarrow> 'i frame option" where
  "Liveness_body st c =
     (let l = fst c; st = st\<lparr>invoked := invoked st @ [l]\<rparr> in
      case snd c of
        Some err \<Rightarrow>
          Some (st\<lparr>overall := False,
                   res := (res st)(l \<mapsto> \<lparr>Status = HealthStatusDown, Err = Some err\<rparr>)\<rparr>)
      | None \<Rightarrow>
          (case maxNotReadyConfig (receiver st) l of
             Some threshold \<Rightarrow>
               (case notReadyCount (receiver st) l of
                  None \<Rightarrow> None
                | Some notReadyCnt \<Rightarrow>
                    if sint (word_of_int threshold :: 32 word) < sint notReadyCnt
                    then Some (st\<lparr>overall := False,
                                  res := (res st)(l \<mapsto>
                                    \<lparr>Status = HealthStatusDown, Err = Some ErrUnavailable\<rparr>)\<rparr>)
                    else Some (st\<lparr>res := (res st)(l \<mapsto>
                                    \<lparr>Status = HealthStatusUp, Err = None\<rparr>)\<rparr>))
           | None \<Rightarrow>
               Some (st\<lparr>res := (res st)(l \<mapsto> \<lparr>Status = HealthStatusUp, Err = None\<rparr>)\<rparr>)))"

fun Liveness_loop :: "('i \<times> error option) list \<Rightarrow> 'i frame \<Rightarrow> 'i frame option" where
  "Liveness_loop [] st = Some st"
| "Liveness_loop (c # rest) st =
     (case Liveness_body st c of
        None \<Rightarrow> None
      | Some st' \<Rightarrow> Liveness_loop rest st')"

definition Liveness :: "'i Health \<Rightarrow> (nat \<Rightarrow> error option) \<Rightarrow> 'i frame option" where
  "Liveness p call =
     Liveness_loop (calls (checkers p) call)
       \<lparr>receiver = p, overall = True, res = Map.empty, invoked = []\<rparr>"

text \<open>
  One iteration of the loop of \<open>Readiness\<close>: \<open>cnt.Store(0)\<close> on success,
  \<open>cnt.Add(1)\<close> (which wraps at 32 bits) on failure, both only for a key of
  \<open>notReadyCount\<close>.
\<close>

definition Readiness_body :: "'i frame \<Rightarrow> 'i \<times> error option \<Rightarrow> 'i frame" where
  "Readiness_body st c =
     (let r = fst c; st = st\<lparr>invoked := invoked st @ [r]\<rparr>; p = receiver st in
      case snd c of
        None \<Rightarrow>
          st\<lparr>res := (res st)(r \<mapsto> \<lparr>Status = HealthStatusUp, Err = None\<rparr>),
             receiver :=
               (case notReadyCount p r of
                  Some cnt \<Rightarrow> p\<lparr>notReadyCount := (notReadyCount p)(r \<mapsto> 0)\<rparr>
                | None \<Rightarrow> p)\<rparr>
      | Some err \<Rightarrow>
          st\<lparr>overall := False,
             res := (res st)(r \<mapsto> \<lparr>Status = HealthUnavailable, Err = Some err\<rparr>),
             receiver :=
               (case notReadyCount p r of
                  Some cnt \<Rightarrow> p\<lparr>notReadyCount := (notReadyCount p)(r \<mapsto> cnt + 1)\<rparr>
                | None \<Rightarrow> p)\<rparr>)"

fun Readiness_loop :: "('i \<times> error option) list \<Rightarrow> 'i frame \<Rightarrow> 'i frame" where
  "Readiness_loop [] st = st"
| "Readiness_loop (c # rest) st = Readiness_loop rest (Readiness_body st c)"

definition Readiness :: "'i Health \<Rightarrow> (nat \<Rightarrow> error option) \<Rightarrow> 'i frame" where
  "Readiness p call =
     Readiness_loop (calls (checkers p) call)
       \<lparr>receiver = p, overall = True, res = Map.empty, invoked = []\<rparr>"

subsection \<open>Sequences of probes\<close>

datatype probe = LivenessProbe "nat \<Rightarrow> error option" | ReadinessProbe "nat \<Rightarrow> error option"

text \<open>The receiver after a sequence of probes; \<open>None\<close> when one of them panics.\<close>

fun run :: "'i Health \<Rightarrow> probe list \<Rightarrow> 'i Health option" where
  "run p [] = Some p"
| "run p (LivenessProbe call # evs) =
     (case Liveness p call of None \<Rightarrow> None | Some st \<Rightarrow> run (receiver st) evs)"
| "run p (ReadinessProbe call # evs) = run (receiver (Readiness p call)) evs"

subsection \<open>Notions used in the statements\<close>

text \<open>
  \<open>NewHealth\<close> gives both maps the same keys, so \<open>Liveness\<close> never meets a
  threshold without a counter. \<open>wf_Health\<close> says so for the registered indicators;
  \<open>NewHealth\<close> establishes it and every probe keeps it (\<open>NewHealth_wf\<close>,
  \<open>Readiness_wf\<close>, \<open>run_inv\<close> below).
\<close>

definition counted :: "'i Health \<Rightarrow> 'i \<Rightarrow> bool" where
  "counted p l = (maxNotReadyConfig p l \<noteq> None \<longrightarrow> notReadyCount p l \<noteq> None)"

definition wf_Health :: "'i Health \<Rightarrow> bool" where
  "wf_Health p =
     list_all (\<lambda>l. maxNotReadyConfig p l \<noteq> None \<longrightarrow> notReadyCount p l \<noteq> None) (checkers p)"

text \<open>
  The test of \<open>Liveness\<close> on an indicator whose own check passed,
  \<open>notReadyCnt > int32(threshold)\<close>, and the status \<open>Liveness\<close> stores for an
  indicator whose check returned \<open>e\<close>.
\<close>

definition exceeded :: "'i Health \<Rightarrow> 'i \<Rightarrow> bool" where
  "exceeded p l =
     (case maxNotReadyConfig p l of
        None \<Rightarrow> False
      | Some threshold \<Rightarrow>
          (case notReadyCount p l of
             None \<Rightarrow> False
           | Some notReadyCnt \<Rightarrow> sint (word_of_int threshold :: 32 word) < sint notReadyCnt))"

definition live_status :: "'i Health \<Rightarrow> 'i \<Rightarrow> error option \<Rightarrow> HealthStatus" where
  "live_status p l e =
     (case e of
        Some err \<Rightarrow> \<lparr>Status = HealthStatusDown, Err = Some err\<rparr>
      | None \<Rightarrow>
          if exceeded p l then \<lparr>Status = HealthStatusDown, Err = Some ErrUnavailable\<rparr>
          else \<lparr>Status = HealthStatusUp, Err = None\<rparr>)"

text \<open>
  The number of failed \<open>Readiness\<close> calls of indicator \<open>i\<close> since its last
  successful one, as an unbounded number: \<open>streak\<close> over the calls of one probe,
  \<open>run_streak\<close> over a sequence of probes, both starting from \<open>n\<close>.
\<close>

fun streak :: "'i \<Rightarrow> ('i \<times> error option) list \<Rightarrow> nat \<Rightarrow> nat" where
  "streak i [] n = n"
| "streak i (c # cs) n =
     streak i cs (if fst c = i then (case snd c of None \<Rightarrow> 0 | Some err \<Rightarrow> Suc n) else n)"

fun run_streak :: "'i list \<Rightarrow> 'i \<Rightarrow> probe list \<Rightarrow> nat \<Rightarrow> nat" where
  "run_streak cs i [] n = n"
| "run_streak cs i (LivenessProbe call # evs) n = run_streak cs i evs n"
| "run_streak cs i (ReadinessProbe call # evs) n = run_streak cs i evs (streak i (calls cs call) n)"

text \<open>What is seen after a sequence of probes: a counter, a \<open>Liveness\<close> probe, one status.\<close>

definition counter_after :: "'i Health \<Rightarrow> probe list \<Rightarrow> 'i \<Rightarrow> 32 word option" where
  "counter_after p evs i = (case run p evs of None \<Rightarrow> None | Some p' \<Rightarrow> notReadyCount p' i)"

definition Liveness_after :: "'i Health \<Rightarrow> probe list \<Rightarrow> (nat \<Rightarrow> error option) \<Rightarrow> 'i frame option" where
  "Liveness_after p evs call = (case run p evs of None \<Rightarrow> None | Some p' \<Rightarrow> Liveness p' call)"

definition status_of :: "'i frame option \<Rightarrow> 'i \<Rightarrow> HealthStatus option" where
  "status_of r i = (case r of None \<Rightarrow> None | Some st \<Rightarrow> res st i)"

subsection \<open>Example aggregators\<close>

text \<open>
  Indicators named by strings. \<open>always_ok\<close>, \<open>always_fail\<close> and \<open>first_fails\<close>
  are answers of the indicators during one probe; \<open>declares t\<close> and \<open>undeclared\<close>
  are threshold declarations; \<open>single s t c\<close> is the aggregator of the one indicator
  \<open>s\<close> with threshold \<open>t\<close> and counter \<open>c\<close>; \<open>two\<close> has a thresholded and an
  unthresholded indicator; \<open>twice\<close> lists one indicator two times.
\<close>

definition always_ok :: "nat \<Rightarrow> error option" where
  "always_ok k = None"

definition always_fail :: "nat \<Rightarrow> error option" where
  "always_fail k = Some (IndicatorError ''connection refused'')"

definition first_fails :: "nat \<Rightarrow> error option" where
  "first_fails k = (if k = 0 then Some (IndicatorError ''timeout'') else None)"

definition declares :: "int \<Rightarrow> string \<Rightarrow> int option" where
  "declares t s = Some t"

definition undeclared :: "string \<Rightarrow> int option" where
  "undeclared s = None"

definition single :: "string \<Rightarrow> int \<Rightarrow> 32 word \<Rightarrow> string Health" where
  "single s t c = \<lparr>checkers = [s], maxNotReadyConfig = [s \<mapsto> t], notReadyCount = [s \<mapsto> c]\<rparr>"

definition two :: "string Health" where
  "two = \<lparr>checkers = [''db'', ''cache''], maxNotReadyConfig = [''db'' \<mapsto> 2],
          notReadyCount = [''db'' \<mapsto> 0]\<rparr>"

definition twice :: "string Health" where
  "twice = \<lparr>checkers = [''db'', ''db''], maxNotReadyConfig = [''db'' \<mapsto> 2],
            notReadyCount = [''db'' \<mapsto> 0]\<rparr>"

section \<open>Required configuration values (corefx.go)\<close>

subsection \<open>What reflection sees of a configuration\<close>

text \<open>
  \<open>checkRequired\<close> walks the configuration struct by reflection. Of a field it reads
  the name, the values of the tags \<open>json\<close> and \<open>mapstructure\<close> (\<open>Tag.Get\<close> gives
  the empty string for a missing tag), whether the field is exported, the pointer
  \<open>valueField.Addr().Interface()\<close>, and the value: a nested struct (kind
  \<open>reflect.Struct\<close>) or anything else, of which only \<open>IsZero\<close> is asked. Two such
  pointers are equal when type and address agree; \<open>address\<close> stands for that pair.
\<close>

datatype StructField =
  Field (Name: string) (json: string) (mapstructure: string) (exported: bool) (address: nat)
    (content: content)
and content = Scalar bool | Struct "StructField list"

text \<open>
  An entry of \<open>RequiredValues()\<close>: the \<open>nil\<close> interface, a value that is no pointer,
  a \<open>nil\<close> pointer, or a pointer with its type and address.
\<close>

datatype any = NilInterface | NotPointer | NilPointer | Pointer nat

text \<open>
  The errors of \<open>LoadJSONConfig\<close>: one from loading, the \<open>errors.New\<close> of
  \<open>checkRequired\<close>, and its \<open>fmt.Errorf\<close> with the arguments \<open>field.Name\<close> and
  \<open>configName\<close>. A call either returns or panics.
\<close>

datatype config_error = OtherError string | NotPointerError | UnsetError string string

datatype 'a result = Panic | Return 'a

text \<open>
  The text of an error. \<open>strings.ToUpper\<close> is a parameter.
\<close>

fun config_error_text :: "(string \<Rightarrow> string) \<Rightarrow> config_error \<Rightarrow> string" where
  "config_error_text ToUpper (OtherError msg) = msg"
| "config_error_text ToUpper NotPointerError = ''requiredValues must return array of pointer''"
| "config_error_text ToUpper (UnsetError fieldName name) =
     ''['' @ fieldName @ ''] is config, consider setting value: ['' @ name
       @ ''] in config file or ['' @ ToUpper name @ ''] in env''"

text \<open>\<open>reflect.Value.IsZero\<close>: a struct is zero when all its fields are.\<close>

primrec IsZero :: "content \<Rightarrow> bool"
  and IsZero_field :: "StructField \<Rightarrow> bool"
  and IsZero_fields :: "StructField list \<Rightarrow> bool" where
  "IsZero (Scalar z) = z"
| "IsZero (Struct fs) = IsZero_fields fs"
| "IsZero_field (Field n j m e a c) = IsZero c"
| "IsZero_fields [] = True"
| "IsZero_fields (f # fs) = (IsZero_field f \<and> IsZero_fields fs)"

subsection \<open>checkRequired\<close>

text \<open>The name the error reports: the tag \<open>json\<close>, else \<open>mapstructure\<close>, else the field's name.\<close>

definition configName :: "StructField \<Rightarrow> string" where
  "configName field =
     (if json field \<noteq> [] then json field
      else if mapstructure field \<noteq> [] then mapstructure field
      else Name field)"

text \<open>
  \<open>checkRequired c vals\<close> for the struct with fields \<open>c\<close>: \<open>vals_loop\<close> is the loop
  over \<open>vals\<close> (its second argument is the whole list, handed on to the recursion),
  \<open>fields_loop\<close> the loop over the fields for the pointer \<open>f\<close> (\<open>None\<close> when it is
  \<open>nil\<close>), where \<open>Return None\<close> says that the loop ran to its end.

  The panics: \<open>reflect.ValueOf(nil).Type()\<close>; \<open>Interface()\<close> and \<open>Set\<close> on a value
  reached through an unexported field (each recursion starts again from an interface, so
  only the field itself counts); \<open>f.Addr()\<close> when \<open>f\<close> is the \<open>Elem()\<close> of a \<open>nil\<close>
  pointer. The copy \<open>ptr\<close> made for a nested struct is never read.
\<close>

function checkRequired :: "StructField list \<Rightarrow> any list \<Rightarrow> config_error option result"
  and vals_loop :: "StructField list \<Rightarrow> any list \<Rightarrow> any list \<Rightarrow> config_error option result"
  and fields_loop :: "any list \<Rightarrow> nat option \<Rightarrow> StructField list \<Rightarrow> config_error option result"
where
  "checkRequired c vals = vals_loop c vals vals"
| "vals_loop c vals [] = Return None"
| "vals_loop c vals (ptr # rest) =
     (case ptr of
        NilInterface \<Rightarrow> Panic
      | NotPointer \<Rightarrow> Return (Some NotPointerError)
      | NilPointer \<Rightarrow>
          (case fields_loop vals None c of Return None \<Rightarrow> vals_loop c vals rest | r \<Rightarrow> r)
      | Pointer a \<Rightarrow>
          (case fields_loop vals (Some a) c of Return None \<Rightarrow> vals_loop c vals rest | r \<Rightarrow> r))"
| "fields_loop vals f [] = Return None"
| "fields_loop vals f (valueField # flds) =
     (case (case content valueField of
              Struct nested \<Rightarrow>
                if exported valueField then checkRequired nested vals else Panic
            | Scalar z \<Rightarrow> Return None) of
        Return None \<Rightarrow>
          if \<not> exported valueField then Panic
          else (case f of
                  None \<Rightarrow> Panic
                | Some a \<Rightarrow>
                    if address valueField = a
                    then (if \<not> IsZero (content valueField) then fields_loop vals f flds
                          else Return (Some (UnsetError (Name valueField) (configName valueField))))
                    else fields_loop vals f flds)
      | r \<Rightarrow> r)"
  by pat_completeness auto
termination
proof (relation "measures
    [\<lambda>x. case x of Inl (c, vals) \<Rightarrow> size_list size c
        | Inr (Inl (c, vals, rest)) \<Rightarrow> size_list size c
        | Inr (Inr (vals, f, flds)) \<Rightarrow> size_list size flds,
     \<lambda>x. case x of Inl (c, vals) \<Rightarrow> 2
        | Inr (Inl (c, vals, rest)) \<Rightarrow> 1
        | Inr (Inr (vals, f, flds)) \<Rightarrow> 0,
     \<lambda>x. case x of Inl (c, vals) \<Rightarrow> 0
        | Inr (Inl (c, vals, rest)) \<Rightarrow> length rest
        | Inr (Inr (vals, f, flds)) \<Rightarrow> 0]")
  fix vals :: "any list" and f :: "nat option" and valueField flds nested
  assume "content valueField = Struct nested"
  then have "size_list size nested < size valueField" by (cases valueField) simp
  then show "(Inl (nested, vals), Inr (Inr (vals, f, valueField # flds))) \<in> measures
    [\<lambda>x. case x of Inl (c, vals) \<Rightarrow> size_list size c
        | Inr (Inl (c, vals, rest)) \<Rightarrow> size_list size c
        | Inr (Inr (vals, f, flds)) \<Rightarrow> size_list size flds,
     \<lambda>x. case x of Inl (c, vals) \<Rightarrow> 2
        | Inr (Inl (c, vals, rest)) \<Rightarrow> 1
        | Inr (Inr (vals, f, flds)) \<Rightarrow> 0,
     \<lambda>x. case x of Inl (c, vals) \<Rightarrow> 0
        | Inr (Inl (c, vals, rest)) \<Rightarrow> length rest
        | Inr (Inr (vals, f, flds)) \<Rightarrow> 0]"
    by simp
qed simp_all

subsection \<open>Notions used in the statements\<close>

text \<open>
  All fields the walk can reach, nested ones included; an entry that is a pointer and
  not \<open>nil\<close>; a field that \<open>vals\<close> points to.
\<close>

primrec fields_of :: "content \<Rightarrow> StructField list"
  and field_tree :: "StructField \<Rightarrow> StructField list"
  and fields_tree :: "StructField list \<Rightarrow> StructField list" where
  "fields_of (Scalar z) = []"
| "fields_of (Struct fs) = fields_tree fs"
| "field_tree (Field n j m e a c) = Field n j m e a c # fields_of c"
| "fields_tree [] = []"
| "fields_tree (f # fs) = field_tree f @ fields_tree fs"

fun nonnil_pointer :: "any \<Rightarrow> bool" where
  "nonnil_pointer (Pointer a) = True"
| "nonnil_pointer v = False"

definition required :: "any list \<Rightarrow> StructField \<Rightarrow> bool" where
  "required vals f = (Pointer (address f) \<in> set vals)"

text \<open>
  \<open>LoadJSONConfig\<close> after its two calls that may fail: the arguments are the error of
  \<open>AppConfigLocationValue\<close>, the error of \<open>LoadJSONConfigInto\<close>, the loaded
  configuration and \<open>RequiredValues()\<close>.
\<close>

definition LoadJSONConfig ::
  "config_error option \<Rightarrow> config_error option \<Rightarrow> StructField list \<Rightarrow> any list
     \<Rightarrow> config_error option result" where
  "LoadJSONConfig AppConfigLocationValue_err LoadJSONConfigInto_err c requireds =
     (case AppConfigLocationValue_err of
        Some err \<Rightarrow> Return (Some err)
      | None \<Rightarrow>
          (case LoadJSONConfigInto_err of
             Some err \<Rightarrow> Return (Some err)
           | None \<Rightarrow>
               if length requireds = 0 then Return None else checkRequired c requireds))"

subsection \<open>An example configuration\<close>

text \<open>
  \<open>myRequiredConfig\<close> of the repository's example: \<open>CoreEnv\<close> (with \<open>SentryEnv\<close>),
  \<open>NestedConfig\<close> with the field \<open>Required\<close> tagged \<open>json:"required"\<close>, and
  \<open>Other\<close>; the arguments say whether \<open>Required\<close> and \<open>Other\<close> are unset.
  \<open>ascii_upper\<close> is \<open>strings.ToUpper\<close> on ASCII text.
\<close>

definition ascii_upper :: "string \<Rightarrow> string" where
  "ascii_upper s =
     map (\<lambda>ch. if 97 \<le> (of_char ch :: nat) \<and> (of_char ch :: nat) \<le> 122
                then char_of ((of_char ch :: nat) - 32) else ch) s"

definition myRequiredConfig :: "bool \<Rightarrow> bool \<Rightarrow> StructField list" where
  "myRequiredConfig required_unset other_unset =
     [Field ''CoreEnv'' [] [] True 1 (Struct
        [Field ''AppName'' ''app_name'' ''app_name'' True 2 (Scalar True),
         Field ''AppVersion'' ''app_version'' ''app_version'' True 3 (Scalar True),
         Field ''LogLevel'' ''log_level'' ''log_level'' True 4 (Scalar False),
         Field ''Profile'' ''profile'' ''profile'' True 5 (Scalar True),
         Field ''SentryEnv'' [] [] True 6 (Struct
           [Field ''SentryDsn'' ''sentry_dsn'' ''sentry_dsn'' True 7 (Scalar True),
            Field ''SentryLogLevel'' ''sentry_log_level'' ''sentry_log_level'' True 8 (Scalar True)])]),
      Field ''NestedConfig'' [] [] True 9 (Struct
        [Field ''Required'' ''required'' [] True 10 (Scalar required_unset)]),
      Field ''Other'' [] [] True 11 (Scalar other_unset)]"

section \<open>Properties of the health aggregator\<close>

lemma calls_fst: "map fst (calls cs call) = cs"
  by (simp add: calls_def)

lemma calls_length: "length (calls cs call) = length cs"
  by (simp add: calls_def)

lemma calls_nth: "k < length cs \<Longrightarrow> calls cs call ! k = (cs ! k, call k)"
  by (simp add: calls_def)

lemma calls_set: "set (calls cs call) = {(cs ! k, call k) | k. k < length cs}"
  by (auto simp: calls_def set_zip)

lemma Readiness_body_invoked: "invoked (Readiness_body st c) = invoked st @ [fst c]"
  by (simp add: Readiness_body_def Let_def split: option.splits)

lemma Readiness_body_overall: "overall (Readiness_body st c) = (overall st \<and> snd c = None)"
  by (simp add: Readiness_body_def Let_def split: option.splits)

lemma Readiness_body_res:
  "res (Readiness_body st c) =
     (res st)(fst c \<mapsto> (case snd c of None \<Rightarrow> \<lparr>Status = HealthStatusUp, Err = None\<rparr>
                         | Some err \<Rightarrow> \<lparr>Status = HealthUnavailable, Err = Some err\<rparr>))"
  by (simp add: Readiness_body_def Let_def split: option.splits)

lemma Readiness_body_checkers: "checkers (receiver (Readiness_body st c)) = checkers (receiver st)"
  by (simp add: Readiness_body_def Let_def split: option.splits)

lemma Readiness_body_config:
  "maxNotReadyConfig (receiver (Readiness_body st c)) = maxNotReadyConfig (receiver st)"
  by (simp add: Readiness_body_def Let_def split: option.splits)

lemma Readiness_body_count:
  "notReadyCount (receiver (Readiness_body st c)) i =
     (if fst c = i
      then (case notReadyCount (receiver st) i of
              None \<Rightarrow> None
            | Some cnt \<Rightarrow> (case snd c of None \<Rightarrow> Some 0 | Some err \<Rightarrow> Some (cnt + 1)))
      else notReadyCount (receiver st) i)"
  by (simp add: Readiness_body_def Let_def split: option.splits)

lemma Readiness_loop_append:
  "Readiness_loop (xs @ ys) st = Readiness_loop ys (Readiness_loop xs st)"
  by (induction xs arbitrary: st) simp_all

lemma Readiness_loop_invoked: "invoked (Readiness_loop cs st) = invoked st @ map fst cs"
  by (induction cs arbitrary: st) (simp_all add: Readiness_body_invoked)

lemma Readiness_loop_overall:
  "overall (Readiness_loop cs st) = (overall st \<and> (\<forall>c\<in>set cs. snd c = None))"
  by (induction cs arbitrary: st) (auto simp: Readiness_body_overall)

lemma Readiness_loop_checkers: "checkers (receiver (Readiness_loop cs st)) = checkers (receiver st)"
  by (induction cs arbitrary: st) (simp_all add: Readiness_body_checkers)

lemma Readiness_loop_config:
  "maxNotReadyConfig (receiver (Readiness_loop cs st)) = maxNotReadyConfig (receiver st)"
  by (induction cs arbitrary: st) (simp_all add: Readiness_body_config)

lemma Readiness_loop_dom_res: "dom (res (Readiness_loop cs st)) = dom (res st) \<union> fst ` set cs"
  by (induction cs arbitrary: st) (auto simp: Readiness_body_res)

lemma Readiness_loop_res_other:
  "i \<notin> fst ` set cs \<Longrightarrow> res (Readiness_loop cs st) i = res st i"
  by (induction cs arbitrary: st) (auto simp: Readiness_body_res)

lemma Readiness_loop_count_None:
  "notReadyCount (receiver st) i = None \<Longrightarrow> notReadyCount (receiver (Readiness_loop cs st)) i = None"
  by (induction cs arbitrary: st) (simp_all add: Readiness_body_count)

lemma Readiness_loop_count:
  "notReadyCount (receiver st) i = Some (of_nat n) \<Longrightarrow>
   notReadyCount (receiver (Readiness_loop cs st)) i = Some (of_nat (streak i cs n))"
proof (induction cs arbitrary: st n)
  case Nil
  then show ?case by simp
next
  case (Cons c cs)
  have "notReadyCount (receiver (Readiness_body st c)) i =
          Some (of_nat (if fst c = i then (case snd c of None \<Rightarrow> 0 | Some err \<Rightarrow> Suc n) else n))"
    using Cons.prems by (simp add: Readiness_body_count split: option.splits)
  from Cons.IH [OF this] show ?case by simp
qed

lemma Readiness_loop_dom_count:
  "dom (notReadyCount (receiver (Readiness_loop cs st))) = dom (notReadyCount (receiver st))"
proof (induction cs arbitrary: st)
  case Nil
  then show ?case by simp
next
  case (Cons c cs)
  have "dom (notReadyCount (receiver (Readiness_body st c))) = dom (notReadyCount (receiver st))"
    by (auto simp: Readiness_body_count dom_def split: option.splits if_splits)
  with Cons.IH [of "Readiness_body st c"] show ?case by simp
qed

lemma Liveness_body_eq:
  assumes "counted (receiver st) (fst c)"
  shows "Liveness_body st c =
           Some (st\<lparr>invoked := invoked st @ [fst c],
                    overall := overall st \<and> snd c = None \<and> \<not> exceeded (receiver st) (fst c),
                    res := (res st)(fst c \<mapsto> live_status (receiver st) (fst c) (snd c))\<rparr>)"
  using assms
  by (auto simp: Liveness_body_def Let_def exceeded_def live_status_def counted_def
      split: option.splits)

lemma Liveness_body_receiver: "Liveness_body st c = Some st' \<Longrightarrow> receiver st' = receiver st"
  by (auto simp: Liveness_body_def Let_def split: option.splits if_splits)

lemma Liveness_loop_receiver: "Liveness_loop cs st = Some st' \<Longrightarrow> receiver st' = receiver st"
proof (induction cs arbitrary: st)
  case Nil
  then show ?case by simp
next
  case (Cons c cs)
  then obtain st1 where b: "Liveness_body st c = Some st1" and l: "Liveness_loop cs st1 = Some st'"
    by (auto split: option.splits)
  from Cons.IH [OF l] Liveness_body_receiver [OF b] show ?case by simp
qed

lemma Liveness_loop_append:
  "Liveness_loop (xs @ ys) st =
     (case Liveness_loop xs st of None \<Rightarrow> None | Some st' \<Rightarrow> Liveness_loop ys st')"
  by (induction xs arbitrary: st) (simp_all split: option.splits)

lemma Liveness_loop_eq:
  assumes "\<forall>c\<in>set cs. counted (receiver st) (fst c)"
  shows "\<exists>st'. Liveness_loop cs st = Some st' \<and> receiver st' = receiver st
           \<and> invoked st' = invoked st @ map fst cs
           \<and> overall st' = (overall st \<and> (\<forall>c\<in>set cs. snd c = None \<and> \<not> exceeded (receiver st) (fst c)))
           \<and> dom (res st') = dom (res st) \<union> fst ` set cs
           \<and> (\<forall>i. i \<notin> fst ` set cs \<longrightarrow> res st' i = res st i)"
  using assms
proof (induction cs arbitrary: st)
  case Nil
  then show ?case by simp
next
  case (Cons c cs)
  define st1 where "st1 = st\<lparr>invoked := invoked st @ [fst c],
                    overall := overall st \<and> snd c = None \<and> \<not> exceeded (receiver st) (fst c),
                    res := (res st)(fst c \<mapsto> live_status (receiver st) (fst c) (snd c))\<rparr>"
  have b: "Liveness_body st c = Some st1"
    unfolding st1_def using Cons.prems by (intro Liveness_body_eq) simp
  have r: "receiver st1 = receiver st" by (simp add: st1_def)
  have "\<forall>c\<in>set cs. counted (receiver st1) (fst c)" using Cons.prems r by simp
  from Cons.IH [OF this] obtain st' where
    l: "Liveness_loop cs st1 = Some st'" and
    p: "receiver st' = receiver st1" "invoked st' = invoked st1 @ map fst cs"
       "overall st' = (overall st1 \<and> (\<forall>c\<in>set cs. snd c = None \<and> \<not> exceeded (receiver st1) (fst c)))"
       "dom (res st') = dom (res st1) \<union> fst ` set cs"
       "\<forall>i. i \<notin> fst ` set cs \<longrightarrow> res st' i = res st1 i"
    by blast
  have "Liveness_loop (c # cs) st = Some st'" using b l by simp
  moreover have "receiver st' = receiver st" using p r by simp
  moreover have "invoked st' = invoked st @ map fst (c # cs)" using p by (simp add: st1_def)
  moreover have "overall st' = (overall st \<and> (\<forall>c\<in>set (c # cs). snd c = None \<and> \<not> exceeded (receiver st) (fst c)))"
    using p r by (auto simp: st1_def)
  moreover have "dom (res st') = dom (res st) \<union> fst ` set (c # cs)"
    using p by (auto simp: st1_def)
  moreover have "\<forall>i. i \<notin> fst ` set (c # cs) \<longrightarrow> res st' i = res st i"
    using p by (auto simp: st1_def)
  ultimately show ?case by blast
qed

lemma Liveness_loop_last:
  assumes "\<forall>c\<in>set (xs @ c # ys). counted (receiver st) (fst c)"
    and "fst c \<notin> fst ` set ys"
  shows "\<exists>st'. Liveness_loop (xs @ c # ys) st = Some st'
           \<and> res st' (fst c) = Some (live_status (receiver st) (fst c) (snd c))"
proof -
  have "\<forall>c\<in>set xs. counted (receiver st) (fst c)" using assms(1) by simp
  from Liveness_loop_eq [OF this] obtain st1 where
    1: "Liveness_loop xs st = Some st1" "receiver st1 = receiver st" by blast
  have "counted (receiver st1) (fst c)" using assms(1) 1 by simp
  from Liveness_body_eq [OF this] obtain st2 where
    2: "Liveness_body st1 c = Some st2" "receiver st2 = receiver st"
       "res st2 (fst c) = Some (live_status (receiver st) (fst c) (snd c))"
    using 1 by simp
  have "\<forall>c\<in>set ys. counted (receiver st2) (fst c)" using assms(1) 2 by simp
  from Liveness_loop_eq [OF this] obtain st3 where
    3: "Liveness_loop ys st2 = Some st3" "\<forall>i. i \<notin> fst ` set ys \<longrightarrow> res st3 i = res st2 i" by blast
  have "Liveness_loop (xs @ c # ys) st = Some st3"
    using 1 2 3 by (simp add: Liveness_loop_append)
  moreover have "res st3 (fst c) = Some (live_status (receiver st) (fst c) (snd c))"
    using 2 3 assms(2) by simp
  ultimately show ?thesis by blast
qed

lemma Readiness_loop_last:
  assumes "fst c \<notin> fst ` set ys"
  shows "res (Readiness_loop (xs @ c # ys) st) (fst c) =
           Some (case snd c of None \<Rightarrow> \<lparr>Status = HealthStatusUp, Err = None\<rparr>
                 | Some err \<Rightarrow> \<lparr>Status = HealthUnavailable, Err = Some err\<rparr>)"
  using assms by (simp add: Readiness_loop_append Readiness_loop_res_other Readiness_body_res)

lemma calls_split:
  assumes "k < length cs"
  shows "calls cs call = take k (calls cs call) @ (cs ! k, call k) # drop (Suc k) (calls cs call)"
  using assms id_take_nth_drop [of k "calls cs call"] by (simp add: calls_length calls_nth)

lemma calls_drop_fst:
  assumes "\<forall>j. k < j \<and> j < length cs \<longrightarrow> cs ! j \<noteq> i"
  shows "i \<notin> fst ` set (drop (Suc k) (calls cs call))"
proof
  assume "i \<in> fst ` set (drop (Suc k) (calls cs call))"
  then have "i \<in> set (drop (Suc k) cs)"
    by (metis calls_fst drop_map set_map)
  then obtain j where "j < length (drop (Suc k) cs)" "drop (Suc k) cs ! j = i"
    by (auto simp: in_set_conv_nth)
  then have "Suc k + j < length cs" "cs ! (Suc k + j) = i" by auto
  with assms show False by auto
qed

lemma wf_counted:
  "wf_Health p \<Longrightarrow> \<forall>c\<in>set (calls (checkers p) call). counted p (fst c)"
  by (auto simp: wf_Health_def counted_def list_all_iff calls_def dest!: set_zip_leftD)

subsection \<open>32-bit facts\<close>

lemma sint_int32_small: "- 2147483648 \<le> T \<Longrightarrow> T < 2147483648 \<Longrightarrow> sint (word_of_int T :: 32 word) = T"
  by (simp add: sint_sbintrunc' signed_take_bit_int_eq_self)

lemma sint_int32_of_nat: "n < 2147483648 \<Longrightarrow> sint (of_nat n :: 32 word) = int n"
  using sint_int32_small [of "int n"] by simp

lemma sint_int32_le: "sint (w :: 32 word) \<le> 2147483647"
  using sint_lt [of w] by simp

lemma sint_int32_succ:
  assumes "sint (w :: 32 word) \<noteq> 2147483647"
  shows "sint (w + 1) = sint w + 1"
proof -
  have "sint w + 1 < 2147483648" using assms sint_int32_le [of w] by linarith
  moreover have "- 2147483648 \<le> sint w + 1" using sint_ge [of w] by simp
  ultimately have "signed_take_bit 31 (sint w + 1) = sint w + 1"
    by (intro signed_take_bit_int_eq_self) simp_all
  then show ?thesis by (simp add: sint_word_add [of w 1])
qed

lemma sint_int32_max_iff:
  "sint (word_of_int T :: 32 word) = 2147483647 \<longleftrightarrow> T mod 4294967296 = 2147483647"
proof -
  have "sint (word_of_int T :: 32 word) = 2147483647 \<longleftrightarrow> (word_of_int T :: 32 word) = 2147483647"
  proof
    assume "sint (word_of_int T :: 32 word) = 2147483647"
    then have "sint (word_of_int T :: 32 word) = sint (2147483647 :: 32 word)" by simp
    then show "(word_of_int T :: 32 word) = 2147483647" by (rule signed_word_eqI)
  qed simp
  also have "\<dots> \<longleftrightarrow> (word_of_int T :: 32 word) = word_of_int 2147483647" by simp
  also have "\<dots> \<longleftrightarrow> take_bit 32 T = take_bit 32 (2147483647 :: int)"
    by (simp only: word_of_int_eq_iff) simp
  also have "\<dots> \<longleftrightarrow> T mod 4294967296 = 2147483647" by (simp add: take_bit_eq_mod)
  finally show ?thesis .
qed

subsection \<open>Whole probes\<close>

lemma Readiness_invoked: "invoked (Readiness p call) = checkers p"
  by (simp add: Readiness_def Readiness_loop_invoked calls_fst)

lemma Readiness_dom_res: "dom (res (Readiness p call)) = set (checkers p)"
  using calls_fst [of "checkers p" call]
  by (simp add: Readiness_def Readiness_loop_dom_res flip: set_map)

lemma Readiness_overall:
  "overall (Readiness p call) = (\<forall>k<length (checkers p). call k = None)"
  by (auto simp: Readiness_def Readiness_loop_overall calls_set)

lemma Readiness_checkers: "checkers (receiver (Readiness p call)) = checkers p"
  by (simp add: Readiness_def Readiness_loop_checkers)

lemma Readiness_config: "maxNotReadyConfig (receiver (Readiness p call)) = maxNotReadyConfig p"
  by (simp add: Readiness_def Readiness_loop_config)

lemma Readiness_dom_count:
  "dom (notReadyCount (receiver (Readiness p call))) = dom (notReadyCount p)"
  by (simp add: Readiness_def Readiness_loop_dom_count)

lemma Readiness_count:
  "notReadyCount p i = Some (of_nat n) \<Longrightarrow>
   notReadyCount (receiver (Readiness p call)) i = Some (of_nat (streak i (calls (checkers p) call) n))"
  by (simp add: Readiness_def Readiness_loop_count)

lemma Readiness_count_None:
  "notReadyCount p i = None \<Longrightarrow> notReadyCount (receiver (Readiness p call)) i = None"
  by (simp add: Readiness_def Readiness_loop_count_None)

lemma Readiness_wf: "wf_Health p \<Longrightarrow> wf_Health (receiver (Readiness p call))"
  using Readiness_dom_count [of p call]
  by (auto simp: wf_Health_def list_all_iff Readiness_checkers Readiness_config dom_def)

lemma Readiness_last:
  assumes "k < length (checkers p)" and "\<forall>j. k < j \<and> j < length (checkers p) \<longrightarrow> checkers p ! j \<noteq> checkers p ! k"
  shows "res (Readiness p call) (checkers p ! k) =
           Some (case call k of None \<Rightarrow> \<lparr>Status = HealthStatusUp, Err = None\<rparr>
                 | Some err \<Rightarrow> \<lparr>Status = HealthUnavailable, Err = Some err\<rparr>)"
proof -
  let ?c = "(checkers p ! k, call k)"
  have "fst ?c \<notin> fst ` set (drop (Suc k) (calls (checkers p) call))"
    using calls_drop_fst [OF assms(2)] by simp
  from Readiness_loop_last [OF this, of "take k (calls (checkers p) call)"
      "\<lparr>receiver = p, overall = True, res = Map.empty, invoked = []\<rparr>"]
    calls_split [OF assms(1), of call, symmetric]
  show ?thesis by (simp add: Readiness_def)
qed

lemma Liveness_total:
  assumes "wf_Health p"
  shows "\<exists>st. Liveness p call = Some st \<and> receiver st = p \<and> invoked st = checkers p
           \<and> overall st = (\<forall>k<length (checkers p). call k = None \<and> \<not> exceeded p (checkers p ! k))
           \<and> dom (res st) = set (checkers p)"
proof -
  let ?st = "\<lparr>receiver = p, overall = True, res = Map.empty, invoked = []\<rparr>"
  have "\<forall>c\<in>set (calls (checkers p) call). counted (receiver ?st) (fst c)"
    using wf_counted [OF assms] by simp
  from Liveness_loop_eq [OF this] obtain st where
    st: "Liveness_loop (calls (checkers p) call) ?st = Some st" "receiver st = receiver ?st"
      "invoked st = invoked ?st @ map fst (calls (checkers p) call)"
      "overall st = (overall ?st \<and> (\<forall>c\<in>set (calls (checkers p) call). snd c = None \<and> \<not> exceeded (receiver ?st) (fst c)))"
      "dom (res st) = dom (res ?st) \<union> fst ` set (calls (checkers p) call)"
    by blast
  have "Liveness p call = Some st" using st(1) by (simp add: Liveness_def)
  moreover have "receiver st = p" using st(2) by simp
  moreover have "invoked st = checkers p" using st(3) by (simp add: calls_fst)
  moreover have "overall st = (\<forall>k<length (checkers p). call k = None \<and> \<not> exceeded p (checkers p ! k))"
    using st(4) by (auto simp: calls_set)
  moreover have "dom (res st) = set (checkers p)"
    using st(5) calls_fst [of "checkers p" call] by (simp flip: set_map)
  ultimately show ?thesis by blast
qed

lemma Liveness_last:
  assumes "wf_Health p" and "k < length (checkers p)"
    and "\<forall>j. k < j \<and> j < length (checkers p) \<longrightarrow> checkers p ! j \<noteq> checkers p ! k"
    and "Liveness p call = Some st"
  shows "res st (checkers p ! k) = Some (live_status p (checkers p ! k) (call k))"
proof -
  let ?st = "\<lparr>receiver = p, overall = True, res = Map.empty, invoked = []\<rparr>"
  let ?c = "(checkers p ! k, call k)"
  let ?xs = "take k (calls (checkers p) call)" and ?ys = "drop (Suc k) (calls (checkers p) call)"
  have split: "calls (checkers p) call = ?xs @ ?c # ?ys" by (rule calls_split [OF assms(2)])
  have "\<forall>c\<in>set (calls (checkers p) call). counted (receiver ?st) (fst c)"
    using wf_counted [OF assms(1)] by simp
  then have 1: "\<forall>c\<in>set (?xs @ ?c # ?ys). counted (receiver ?st) (fst c)"
    using split by simp
  have 2: "fst ?c \<notin> fst ` set ?ys" using calls_drop_fst [OF assms(3)] by simp
  from Liveness_loop_last [OF 1 2] obtain st' where
    "Liveness_loop (?xs @ ?c # ?ys) ?st = Some st'"
    "res st' (fst ?c) = Some (live_status (receiver ?st) (fst ?c) (snd ?c))" by blast
  then show ?thesis using assms(4) split by (simp add: Liveness_def)
qed

lemma last_occurrence:
  assumes "i \<in> set cs"
  shows "\<exists>k<length cs. cs ! k = i \<and> (\<forall>j. k < j \<and> j < length cs \<longrightarrow> cs ! j \<noteq> i)"
proof -
  let ?K = "{k. k < length cs \<and> cs ! k = i}"
  have fin: "finite ?K" by simp
  have ne: "?K \<noteq> {}" using assms by (auto simp: in_set_conv_nth)
  have m: "Max ?K \<in> ?K" by (rule Max_in [OF fin ne])
  have "\<forall>j. Max ?K < j \<and> j < length cs \<longrightarrow> cs ! j \<noteq> i"
  proof (intro allI impI notI)
    fix j assume "Max ?K < j \<and> j < length cs" "cs ! j = i"
    then have "j \<in> ?K" by simp
    then have "j \<le> Max ?K" by (rule Max_ge [OF fin])
    with \<open>Max ?K < j \<and> j < length cs\<close> show False by simp
  qed
  with m show ?thesis by blast
qed

lemma Liveness_own_ok:
  assumes "wf_Health p" and "i \<in> set (checkers p)"
    and "\<forall>k<length (checkers p). checkers p ! k = i \<longrightarrow> call k = None"
  shows "\<exists>st. Liveness p call = Some st \<and> receiver st = p
           \<and> res st i = Some (live_status p i None)
           \<and> overall st = (\<forall>k<length (checkers p). call k = None \<and> \<not> exceeded p (checkers p ! k))"
proof -
  from Liveness_total [OF assms(1), of call] obtain st where
    st: "Liveness p call = Some st" "receiver st = p"
      "overall st = (\<forall>k<length (checkers p). call k = None \<and> \<not> exceeded p (checkers p ! k))"
    by blast
  from last_occurrence [OF assms(2)] obtain k where
    k: "k < length (checkers p)" "checkers p ! k = i"
      "\<forall>j. k < j \<and> j < length (checkers p) \<longrightarrow> checkers p ! j \<noteq> i" by blast
  have "res st (checkers p ! k) = Some (live_status p (checkers p ! k) (call k))"
    using k by (intro Liveness_last [OF assms(1) _ _ st(1)]) simp_all
  then have "res st i = Some (live_status p i None)" using k assms(3) by simp
  with st show ?thesis by blast
qed

subsection \<open>NewHealth\<close>

lemma prepare_eq:
  assumes "\<forall>s\<in>set xs. thr s \<noteq> None"
  shows "\<exists>p'. prepare thr xs probe = Some p' \<and> checkers p' = checkers probe
           \<and> maxNotReadyConfig p' = (\<lambda>i. if i \<in> set xs then thr i else maxNotReadyConfig probe i)
           \<and> notReadyCount p' = (\<lambda>i. if i \<in> set xs then Some 0 else notReadyCount probe i)"
  using assms
proof (induction xs arbitrary: probe)
  case Nil
  then show ?case by simp
next
  case (Cons s xs)
  from Cons.prems obtain t where t: "thr s = Some t" by auto
  let ?probe = "probe\<lparr>maxNotReadyConfig := (maxNotReadyConfig probe)(s \<mapsto> t),
                       notReadyCount := (notReadyCount probe)(s \<mapsto> 0)\<rparr>"
  have "\<forall>s\<in>set xs. thr s \<noteq> None" using Cons.prems by simp
  from Cons.IH [OF this, of ?probe] obtain p' where
    p': "prepare thr xs ?probe = Some p'" "checkers p' = checkers ?probe"
      "maxNotReadyConfig p' = (\<lambda>i. if i \<in> set xs then thr i else maxNotReadyConfig ?probe i)"
      "notReadyCount p' = (\<lambda>i. if i \<in> set xs then Some 0 else notReadyCount ?probe i)"
    by blast
  have "prepare thr (s # xs) probe = Some p'" using t p'(1) by simp
  moreover have "checkers p' = checkers probe" using p'(2) by simp
  moreover have "maxNotReadyConfig p' = (\<lambda>i. if i \<in> set (s # xs) then thr i else maxNotReadyConfig probe i)"
    using p'(3) t by (auto simp: fun_eq_iff)
  moreover have "notReadyCount p' = (\<lambda>i. if i \<in> set (s # xs) then Some 0 else notReadyCount probe i)"
    using p'(4) by (auto simp: fun_eq_iff)
  ultimately show ?case by blast
qed

lemma NewHealth_eq:
  "\<exists>p. NewHealth thr cs = Some p \<and> checkers p = cs
     \<and> (\<forall>i. maxNotReadyConfig p i =
            (if i \<in> set cs then (case thr i of None \<Rightarrow> None | Some t \<Rightarrow> if 0 \<le> t then Some t else None)
             else None))
     \<and> (\<forall>i. notReadyCount p i = (if maxNotReadyConfig p i = None then None else Some 0))"
proof -
  let ?xs = "thresholdedReadinessReporters thr cs"
  let ?probe = "\<lparr>checkers = cs, maxNotReadyConfig = Map.empty, notReadyCount = Map.empty\<rparr>"
  have "\<forall>s\<in>set ?xs. thr s \<noteq> None"
    by (auto simp: thresholdedReadinessReporters_def split: option.splits)
  from prepare_eq [OF this, of ?probe] obtain p where
    p: "prepare thr ?xs ?probe = Some p" "checkers p = checkers ?probe"
      "maxNotReadyConfig p = (\<lambda>i. if i \<in> set ?xs then thr i else maxNotReadyConfig ?probe i)"
      "notReadyCount p = (\<lambda>i. if i \<in> set ?xs then Some 0 else notReadyCount ?probe i)"
    by blast
  have "NewHealth thr cs = Some p" using p(1) by (simp add: NewHealth_def)
  moreover have "checkers p = cs" using p(2) by simp
  moreover have "\<forall>i. maxNotReadyConfig p i =
            (if i \<in> set cs then (case thr i of None \<Rightarrow> None | Some t \<Rightarrow> if 0 \<le> t then Some t else None)
             else None)"
    using p(3) by (auto simp: thresholdedReadinessReporters_def split: option.splits)
  moreover have "\<forall>i. notReadyCount p i = (if maxNotReadyConfig p i = None then None else Some 0)"
    using p(3,4) by (auto simp: thresholdedReadinessReporters_def split: option.splits)
  ultimately show ?thesis by blast
qed

lemma NewHealth_wf: "NewHealth thr cs = Some p \<Longrightarrow> wf_Health p"
  using NewHealth_eq [of thr cs] by (auto simp: wf_Health_def list_all_iff)

subsection \<open>Runs\<close>

lemma run_inv:
  assumes "wf_Health p"
  shows "\<exists>p'. run p evs = Some p' \<and> wf_Health p' \<and> checkers p' = checkers p
           \<and> maxNotReadyConfig p' = maxNotReadyConfig p
           \<and> dom (notReadyCount p') = dom (notReadyCount p)"
  using assms
proof (induction evs arbitrary: p)
  case Nil
  then show ?case by simp
next
  case (Cons ev evs)
  show ?case
  proof (cases ev)
    case (LivenessProbe call)
    from Liveness_total [OF Cons.prems, of call] obtain st where
      "Liveness p call = Some st" "receiver st = p" by blast
    with Cons.IH [OF Cons.prems] LivenessProbe show ?thesis by simp
  next
    case (ReadinessProbe call)
    from Cons.IH [OF Readiness_wf [OF Cons.prems, of call]] ReadinessProbe
    show ?thesis by (simp add: Readiness_checkers Readiness_config Readiness_dom_count)
  qed
qed

lemma run_count:
  assumes "wf_Health p" and "notReadyCount p i = Some (of_nat n)"
  shows "counter_after p evs i = Some (of_nat (run_streak (checkers p) i evs n))"
  using assms
proof (induction evs arbitrary: p n)
  case Nil
  then show ?case by (simp add: counter_after_def)
next
  case (Cons ev evs)
  show ?case
  proof (cases ev)
    case (LivenessProbe call)
    from Liveness_total [OF Cons.prems(1), of call] obtain st where
      "Liveness p call = Some st" "receiver st = p" by blast
    with Cons.IH [OF Cons.prems] LivenessProbe show ?thesis by (simp add: counter_after_def)
  next
    case (ReadinessProbe call)
    from Cons.IH [OF Readiness_wf [OF Cons.prems(1), of call] Readiness_count [OF Cons.prems(2), of call]]
      ReadinessProbe
    show ?thesis by (simp add: counter_after_def Readiness_checkers)
  qed
qed

lemma streak_all_fail:
  "\<forall>c\<in>set xs. fst c = i \<longrightarrow> snd c \<noteq> None \<Longrightarrow> streak i xs n = n + count_list (map fst xs) i"
  by (induction xs arbitrary: n) (auto split: option.splits)

lemma streak_all_ok:
  "i \<in> fst ` set xs \<Longrightarrow> \<forall>c\<in>set xs. fst c = i \<longrightarrow> snd c = None \<Longrightarrow> streak i xs n = 0"
proof (induction xs arbitrary: n)
  case Nil
  then show ?case by simp
next
  case (Cons c xs)
  show ?case
  proof (cases "i \<in> fst ` set xs")
    case True
    with Cons show ?thesis by simp
  next
    case False
    then have "\<forall>c\<in>set xs. fst c = i \<longrightarrow> snd c \<noteq> None" by force
    from streak_all_fail [OF this] False Cons.prems show ?thesis
      by (auto simp: count_list_0_iff image_iff)
  qed
qed

lemma calls_fail:
  "\<forall>k<length cs. cs ! k = i \<longrightarrow> call k \<noteq> None \<Longrightarrow> \<forall>c\<in>set (calls cs call). fst c = i \<longrightarrow> snd c \<noteq> None"
  by (auto simp: calls_set)

lemma calls_ok:
  "\<forall>k<length cs. cs ! k = i \<longrightarrow> call k = None \<Longrightarrow> \<forall>c\<in>set (calls cs call). fst c = i \<longrightarrow> snd c = None"
  by (auto simp: calls_set)

lemma run_streak_fail:
  assumes "\<forall>f\<in>set fs. \<forall>k<length cs. cs ! k = i \<longrightarrow> f k \<noteq> None"
  shows "run_streak cs i (map ReadinessProbe fs) n = n + length fs * count_list cs i"
  using assms
proof (induction fs arbitrary: n)
  case Nil
  then show ?case by simp
next
  case (Cons f fs)
  have "streak i (calls cs f) n = n + count_list cs i"
    using streak_all_fail [OF calls_fail, of cs i f n] Cons.prems by (simp add: calls_fst)
  with Cons show ?case by simp
qed

lemma exceeded_cong:
  "maxNotReadyConfig p i = maxNotReadyConfig q i \<Longrightarrow> notReadyCount p i = notReadyCount q i \<Longrightarrow>
   exceeded p i = exceeded q i"
  by (simp add: exceeded_def split: option.splits)

lemma live_status_cong:
  "maxNotReadyConfig p i = maxNotReadyConfig q i \<Longrightarrow> notReadyCount p i = notReadyCount q i \<Longrightarrow>
   live_status p i e = live_status q i e"
  using exceeded_cong [of p i q] by (simp add: live_status_def)

lemma Liveness_after_own_ok:
  assumes "wf_Health p" and "i \<in> set (checkers p)"
    and "notReadyCount p i = Some (of_nat n)"
    and "\<forall>k<length (checkers p). checkers p ! k = i \<longrightarrow> lv k = None"
  shows "\<exists>st. Liveness_after p evs lv = Some st \<and> run p evs = Some (receiver st)
           \<and> checkers (receiver st) = checkers p
           \<and> maxNotReadyConfig (receiver st) = maxNotReadyConfig p
           \<and> notReadyCount (receiver st) i = Some (of_nat (run_streak (checkers p) i evs n))
           \<and> res st i = Some (live_status (receiver st) i None)
           \<and> overall st = (\<forall>k<length (checkers p). lv k = None \<and> \<not> exceeded (receiver st) (checkers p ! k))"
proof -
  from run_inv [OF assms(1), of evs] obtain p' where
    p': "run p evs = Some p'" "wf_Health p'" "checkers p' = checkers p"
      "maxNotReadyConfig p' = maxNotReadyConfig p" by blast
  have c: "notReadyCount p' i = Some (of_nat (run_streak (checkers p) i evs n))"
    using run_count [OF assms(1,3), of evs] p'(1) by (simp add: counter_after_def)
  have "i \<in> set (checkers p')" "\<forall>k<length (checkers p'). checkers p' ! k = i \<longrightarrow> lv k = None"
    using assms(2,4) p'(3) by simp_all
  from Liveness_own_ok [OF p'(2) this, of] obtain st where
    st: "Liveness p' lv = Some st" "receiver st = p'" "res st i = Some (live_status p' i None)"
      "overall st = (\<forall>k<length (checkers p'). lv k = None \<and> \<not> exceeded p' (checkers p' ! k))"
    by blast
  have "Liveness_after p evs lv = Some st" using p'(1) st(1) by (simp add: Liveness_after_def)
  with p' c st show ?thesis by auto
qed

lemma single_wf: "wf_Health (single s t c)"
  by (simp add: single_def wf_Health_def)

lemma two_wf: "wf_Health two"
  by (simp add: two_def wf_Health_def)

lemma Readiness_count_fail:
  assumes "notReadyCount p i = Some c"
    and "\<forall>j<length (checkers p). checkers p ! j = i \<longrightarrow> call j \<noteq> None"
  shows "notReadyCount (receiver (Readiness p call)) i = Some (c + of_nat (count_list (checkers p) i))"
proof -
  have "notReadyCount p i = Some (of_nat (unat c))" using assms(1) by simp
  from Readiness_count [OF this, of call]
    streak_all_fail [OF calls_fail [OF assms(2)], of "unat c"]
  show ?thesis by (simp add: calls_fst)
qed

lemma Readiness_count_ok:
  assumes "notReadyCount p i = Some c" and "i \<in> set (checkers p)"
    and "\<forall>j<length (checkers p). checkers p ! j = i \<longrightarrow> call j = None"
  shows "notReadyCount (receiver (Readiness p call)) i = Some 0"
proof -
  have "notReadyCount p i = Some (of_nat (unat c))" using assms(1) by simp
  moreover have "i \<in> fst ` set (calls (checkers p) call)"
    using assms(2) calls_fst [of "checkers p" call] by (simp flip: set_map)
  ultimately show ?thesis
    using Readiness_count [of p i "unat c" call] streak_all_ok [OF _ calls_ok [OF assms(3)], of "unat c"]
    by simp
qed

subsection \<open>Claims\<close>

text \<open>
  C1, as the code has it. An indicator with a threshold \<open>T \<ge> 0\<close> whose own
  \<open>Liveness\<close> check returns no error, and whose failure counter exceeds \<open>T\<close>, is
  reported by the \<open>Liveness\<close> probe with the status \<open>DOWN\<close> and the sentinel
  \<open>ErrUnavailable\<close> as cause, and overall liveness is false. The status is not
  \<open>UNAVAILABLE\<close>: that string is written by \<open>Readiness\<close> only.
\<close>

theorem Liveness_threshold_exceeded:
  assumes "wf_Health p" and "i \<in> set (checkers p)"
    and "\<forall>k<length (checkers p). checkers p ! k = i \<longrightarrow> call k = None"
    and "maxNotReadyConfig p i = Some T" and "0 \<le> T"
    and "notReadyCount p i = Some c" and "T < sint c"
  shows "\<exists>st. Liveness p call = Some st
           \<and> res st i = Some \<lparr>Status = HealthStatusDown, Err = Some ErrUnavailable\<rparr>
           \<and> \<not> overall st"
proof -
  have "T < 2147483648" using assms(7) sint_int32_le [of c] by linarith
  then have "sint (word_of_int T :: 32 word) = T" using assms(5) by (intro sint_int32_small) simp_all
  then have ex: "exceeded p i" using assms(4,6,7) by (simp add: exceeded_def)
  from Liveness_own_ok [OF assms(1-3)] obtain st where
    st: "Liveness p call = Some st" "res st i = Some (live_status p i None)"
      "overall st = (\<forall>k<length (checkers p). call k = None \<and> \<not> exceeded p (checkers p ! k))"
    by blast
  from assms(2) obtain k where "k < length (checkers p)" "checkers p ! k = i"
    by (auto simp: in_set_conv_nth)
  with ex st(3) have "\<not> overall st" by auto
  with st(1,2) ex show ?thesis by (simp add: live_status_def)
qed

theorem Liveness_threshold_exceeded_witness:
  "\<exists>st. Liveness (single ''db'' 2 3) always_ok = Some st
     \<and> res st ''db'' = Some \<lparr>Status = HealthStatusDown, Err = Some ErrUnavailable\<rparr>
     \<and> \<not> overall st"
  by (rule Liveness_threshold_exceeded [where T = 2 and c = 3])
    (simp_all add: single_wf always_ok_def, simp_all add: single_def)

text \<open>
  C1 as stated fails: a fresh aggregator of \<open>db\<close> with threshold 0, one failed
  \<open>Readiness\<close> probe (counter 1), then a \<open>Liveness\<close> probe in which \<open>db\<close> itself
  answers \<open>nil\<close>. The status is \<open>DOWN\<close>, which is not \<open>UNAVAILABLE\<close>.
\<close>

theorem Liveness_threshold_exceeded_not_unavailable:
  "NewHealth (declares 0) [''db''] = Some (single ''db'' 0 0)
   \<and> counter_after (single ''db'' 0 0) [ReadinessProbe always_fail] ''db'' = Some 1
   \<and> status_of (Liveness_after (single ''db'' 0 0) [ReadinessProbe always_fail] always_ok) ''db''
       = Some \<lparr>Status = HealthStatusDown, Err = Some ErrUnavailable\<rparr>
   \<and> HealthStatusDown \<noteq> HealthUnavailable"
  by (simp add: NewHealth_def thresholdedReadinessReporters_def declares_def single_def
      counter_after_def Liveness_after_def status_of_def Readiness_def Liveness_def calls_def
      Readiness_body_def Liveness_body_def always_fail_def always_ok_def Let_def
      HealthStatusDown_def HealthUnavailable_def)

text \<open>
  C2, as the code has it. Take an indicator \<open>i\<close> with threshold \<open>T \<ge> 0\<close> whose low
  32 bits are not \<open>0x7FFFFFFF\<close> (so every \<open>0 \<le> T < 2\<^sup>3\<^sup>1 - 1\<close>), a counter at 0, and
  \<open>Readiness\<close> probes \<open>fs\<close> in which every call of \<open>i\<close> fails; \<open>i\<close> is called
  once per occurrence in \<open>checkers\<close>. If these are \<open>T + 1\<close> failed calls, the next
  \<open>Liveness\<close> probe (where \<open>i\<close> itself answers \<open>nil\<close>) reports \<open>i\<close> as
  \<open>DOWN\<close> with \<open>ErrUnavailable\<close> and overall liveness is false; if they are \<open>T\<close>,
  it reports \<open>i\<close> as \<open>UP\<close>. With \<open>T = 0\<close> one failure is enough.
\<close>

theorem consecutive_failures_escalate:
  assumes "wf_Health p" and "i \<in> set (checkers p)"
    and "maxNotReadyConfig p i = Some T" and "0 \<le> T" and "T mod 4294967296 \<noteq> 2147483647"
    and "notReadyCount p i = Some 0"
    and "\<forall>f\<in>set fs. \<forall>k<length (checkers p). checkers p ! k = i \<longrightarrow> f k \<noteq> None"
    and "\<forall>k<length (checkers p). checkers p ! k = i \<longrightarrow> lv k = None"
  shows "(int (length fs * count_list (checkers p) i) = T + 1 \<longrightarrow>
            (\<exists>st. Liveness_after p (map ReadinessProbe fs) lv = Some st
               \<and> res st i = Some \<lparr>Status = HealthStatusDown, Err = Some ErrUnavailable\<rparr>
               \<and> \<not> overall st))
       \<and> (int (length fs * count_list (checkers p) i) = T \<longrightarrow>
            (\<exists>st. Liveness_after p (map ReadinessProbe fs) lv = Some st
               \<and> res st i = Some \<lparr>Status = HealthStatusUp, Err = None\<rparr>))"
proof -
  let ?n = "length fs * count_list (checkers p) i"
  have "notReadyCount p i = Some (of_nat 0)" using assms(6) by simp
  from Liveness_after_own_ok [OF assms(1,2) this assms(8), of "map ReadinessProbe fs"]
  obtain st where
    st: "Liveness_after p (map ReadinessProbe fs) lv = Some st"
      "maxNotReadyConfig (receiver st) = maxNotReadyConfig p"
      "notReadyCount (receiver st) i = Some (of_nat (run_streak (checkers p) i (map ReadinessProbe fs) 0))"
      "res st i = Some (live_status (receiver st) i None)"
      "overall st = (\<forall>k<length (checkers p). lv k = None \<and> \<not> exceeded (receiver st) (checkers p ! k))"
    by blast
  have cnt: "notReadyCount (receiver st) i = Some (of_nat ?n)"
    using st(3) run_streak_fail [OF assms(7), of 0] by simp
  have ex: "exceeded (receiver st) i \<longleftrightarrow> sint (word_of_int T :: 32 word) < sint (of_nat ?n :: 32 word)"
    using st(2) cnt assms(3) by (simp add: exceeded_def)
  from assms(2) obtain k where k: "k < length (checkers p)" "checkers p ! k = i"
    by (auto simp: in_set_conv_nth)
  have up: "int ?n = T + 1 \<Longrightarrow> exceeded (receiver st) i"
  proof -
    assume n: "int ?n = T + 1"
    have "(of_nat ?n :: 32 word) = word_of_int (int ?n)" by simp
    also have "\<dots> = word_of_int T + 1" by (simp only: n) simp
    finally have "(of_nat ?n :: 32 word) = word_of_int T + 1" .
    moreover have "sint (word_of_int T :: 32 word) \<noteq> 2147483647"
      using assms(5) by (simp only: sint_int32_max_iff) simp
    ultimately show ?thesis using ex sint_int32_succ [of "word_of_int T"] by simp
  qed
  have same: "int ?n = T \<Longrightarrow> \<not> exceeded (receiver st) i"
  proof -
    assume n: "int ?n = T"
    have "(of_nat ?n :: 32 word) = word_of_int (int ?n)" by simp
    also have "\<dots> = word_of_int T" by (simp only: n)
    finally show ?thesis using ex by simp
  qed
  show ?thesis
  proof (intro conjI impI)
    assume "int ?n = T + 1"
    from up [OF this] st k show "\<exists>st. Liveness_after p (map ReadinessProbe fs) lv = Some st
               \<and> res st i = Some \<lparr>Status = HealthStatusDown, Err = Some ErrUnavailable\<rparr>
               \<and> \<not> overall st"
      by (auto simp: live_status_def)
  next
    assume "int ?n = T"
    from same [OF this] st show "\<exists>st. Liveness_after p (map ReadinessProbe fs) lv = Some st
               \<and> res st i = Some \<lparr>Status = HealthStatusUp, Err = None\<rparr>"
      by (auto simp: live_status_def)
  qed
qed

theorem consecutive_failures_escalate_witness:
  "(\<exists>st. Liveness_after (single ''db'' 2 0) (map ReadinessProbe [always_fail, always_fail, always_fail]) always_ok = Some st
      \<and> res st ''db'' = Some \<lparr>Status = HealthStatusDown, Err = Some ErrUnavailable\<rparr>
      \<and> \<not> overall st)
   \<and> (\<exists>st. Liveness_after (single ''db'' 2 0) (map ReadinessProbe [always_fail, always_fail]) always_ok = Some st
      \<and> res st ''db'' = Some \<lparr>Status = HealthStatusUp, Err = None\<rparr>)
   \<and> (\<exists>st. Liveness_after (single ''db'' 0 0) (map ReadinessProbe [always_fail]) always_ok = Some st
      \<and> res st ''db'' = Some \<lparr>Status = HealthStatusDown, Err = Some ErrUnavailable\<rparr>
      \<and> \<not> overall st)"
proof -
  have h: "wf_Health (single ''db'' T 0)" "''db'' \<in> set (checkers (single ''db'' T 0))"
    "maxNotReadyConfig (single ''db'' T 0) ''db'' = Some T"
    "notReadyCount (single ''db'' T 0) ''db'' = Some 0"
    "\<forall>k<length (checkers (single ''db'' T 0)). checkers (single ''db'' T 0) ! k = ''db'' \<longrightarrow> always_ok k = None"
    for T
    by (simp_all add: single_wf always_ok_def) (simp_all add: single_def)
  have f: "\<forall>f\<in>set fs. f = always_fail \<Longrightarrow>
    \<forall>f\<in>set fs. \<forall>k<length (checkers (single ''db'' T 0)). checkers (single ''db'' T 0) ! k = ''db'' \<longrightarrow> f k \<noteq> None"
    for fs T
    by (auto simp: always_fail_def)
  have c: "count_list (checkers (single ''db'' T 0)) ''db'' = 1" for T
    by (simp add: single_def)
  from consecutive_failures_escalate [OF h(1,2,3) _ _ h(4) f h(5), of 2 "[always_fail, always_fail, always_fail]"]
    consecutive_failures_escalate [OF h(1,2,3) _ _ h(4) f h(5), of 2 "[always_fail, always_fail]"]
    consecutive_failures_escalate [OF h(1,2,3) _ _ h(4) f h(5), of 0 "[always_fail]"]
  show ?thesis by (simp add: c)
qed

text \<open>
  C2 as stated fails at \<open>T = 2\<^sup>3\<^sup>1 - 1\<close>: after \<open>T + 1 = 2\<^sup>3\<^sup>1\<close> failed
  \<open>Readiness\<close> probes the 32-bit counter has wrapped to \<open>-2\<^sup>3\<^sup>1\<close>, which is not above
  the threshold, and \<open>Liveness\<close> reports \<open>UP\<close>.
\<close>

theorem consecutive_failures_wrap_at_max:
  "NewHealth (declares 2147483647) [''db''] = Some (single ''db'' 2147483647 0)
   \<and> counter_after (single ''db'' 2147483647 0)
        (map ReadinessProbe (replicate 2147483648 always_fail)) ''db'' = Some (- 2147483648)
   \<and> status_of (Liveness_after (single ''db'' 2147483647 0)
        (map ReadinessProbe (replicate 2147483648 always_fail)) always_ok) ''db''
       = Some \<lparr>Status = HealthStatusUp, Err = None\<rparr>"
proof -
  let ?p = "single ''db'' 2147483647 0"
  let ?evs = "map ReadinessProbe (replicate 2147483648 always_fail)"
  have new: "NewHealth (declares 2147483647) [''db''] = Some ?p"
    by (simp add: NewHealth_def thresholdedReadinessReporters_def declares_def single_def)
  have 0: "notReadyCount ?p ''db'' = Some (of_nat 0)" by (simp add: single_def)
  have ok: "\<forall>k<length (checkers ?p). checkers ?p ! k = ''db'' \<longrightarrow> always_ok k = None"
    by (simp add: always_ok_def)
  have "\<forall>f\<in>set (replicate 2147483648 always_fail). \<forall>k<length (checkers ?p). checkers ?p ! k = ''db'' \<longrightarrow> f k \<noteq> None"
    by (simp add: always_fail_def)
  from run_streak_fail [OF this, of 0]
  have s: "run_streak (checkers ?p) ''db'' ?evs 0 = 2147483648" by (simp add: single_def)
  from Liveness_after_own_ok [OF single_wf _ 0 ok, of ?evs]
  obtain st where
    st: "Liveness_after ?p ?evs always_ok = Some st" "run ?p ?evs = Some (receiver st)"
      "maxNotReadyConfig (receiver st) = maxNotReadyConfig ?p"
      "notReadyCount (receiver st) ''db'' = Some (of_nat (run_streak (checkers ?p) ''db'' ?evs 0))"
      "res st ''db'' = Some (live_status (receiver st) ''db'' None)"
    by (auto simp: single_def)
  have cnt: "notReadyCount (receiver st) ''db'' = Some (- 2147483648)"
    using st(4) by (simp only: s) simp
  have "\<not> exceeded (receiver st) ''db''"
    using st(3) cnt by (simp add: exceeded_def single_def)
  then have "res st ''db'' = Some \<lparr>Status = HealthStatusUp, Err = None\<rparr>"
    using st(5) by (simp add: live_status_def)
  with new st(1,2) cnt show ?thesis
    by (simp add: counter_after_def status_of_def)
qed

text \<open>
  C3. \<open>Readiness\<close> returns false exactly when some indicator's \<open>Readiness\<close> call
  returns an error. \<open>Liveness\<close> returns false exactly when, for some indicator, its
  \<open>Liveness\<close> call returns an error or its counter exceeds its threshold; that is,
  exactly when the status computed at some call is \<open>DOWN\<close>.
\<close>

theorem aggregate_flags:
  assumes "wf_Health p"
  shows "(\<not> overall (Readiness p rd) \<longleftrightarrow> (\<exists>k<length (checkers p). rd k \<noteq> None))
       \<and> (\<exists>st. Liveness p lv = Some st
            \<and> (\<not> overall st \<longleftrightarrow>
                 (\<exists>k<length (checkers p). lv k \<noteq> None \<or> exceeded p (checkers p ! k)))
            \<and> (\<not> overall st \<longleftrightarrow>
                 (\<exists>k<length (checkers p).
                    Status (live_status p (checkers p ! k) (lv k)) = HealthStatusDown)))"
proof -
  have r: "\<not> overall (Readiness p rd) \<longleftrightarrow> (\<exists>k<length (checkers p). rd k \<noteq> None)"
    by (auto simp: Readiness_overall)
  from Liveness_total [OF assms, of lv] obtain st where
    st: "Liveness p lv = Some st"
      "overall st = (\<forall>k<length (checkers p). lv k = None \<and> \<not> exceeded p (checkers p ! k))"
    by blast
  have d: "Status (live_status p l e) = HealthStatusDown \<longleftrightarrow> e \<noteq> None \<or> exceeded p l" for l e
    by (auto simp: live_status_def HealthStatusDown_def HealthStatusUp_def split: option.splits)
  have "\<not> overall st \<longleftrightarrow> (\<exists>k<length (checkers p). lv k \<noteq> None \<or> exceeded p (checkers p ! k))"
    using st(2) by auto
  with r st(1) show ?thesis by (auto simp: d)
qed

theorem aggregate_flags_witness:
  "\<not> overall (Readiness two always_fail) \<and> overall (Readiness two always_ok)
   \<and> (\<exists>st. Liveness two always_ok = Some st \<and> overall st)
   \<and> (\<exists>st. Liveness two always_fail = Some st \<and> \<not> overall st)
   \<and> (\<exists>st. Liveness (single ''db'' 2 3) always_ok = Some st \<and> \<not> overall st)"
proof -
  have f: "\<exists>k<length (checkers two). always_fail k \<noteq> None"
    by (intro exI [of _ 0]) (simp add: two_def always_fail_def)
  have e: "\<exists>k<length (checkers (single ''db'' 2 3)).
      always_ok k \<noteq> None \<or> exceeded (single ''db'' 2 3) (checkers (single ''db'' 2 3) ! k)"
    by (intro exI [of _ 0]) (simp add: single_def exceeded_def)
  have n: "\<not> (\<exists>k<length (checkers two). always_ok k \<noteq> None \<or> exceeded two (checkers two ! k))"
    by (simp add: two_def always_ok_def exceeded_def less_Suc_eq)
  from aggregate_flags [OF two_wf, of always_fail always_fail] f
  have 1: "\<not> overall (Readiness two always_fail)"
    "\<exists>st. Liveness two always_fail = Some st \<and> \<not> overall st" by auto
  from aggregate_flags [OF two_wf, of always_ok always_ok] n
  have 2: "overall (Readiness two always_ok)"
    "\<exists>st. Liveness two always_ok = Some st \<and> overall st" by auto
  from aggregate_flags [OF single_wf, of "''db''" 2 3 always_ok always_ok] e
  have 3: "\<exists>st. Liveness (single ''db'' 2 3) always_ok = Some st \<and> \<not> overall st" by auto
  from 1 2 3 show ?thesis by simp
qed

text \<open>
  C4. A \<open>Readiness\<close> probe in which every call of \<open>i\<close> succeeds sets the counter of
  \<open>i\<close> to 0, whatever it was. From then on, after any probes \<open>evs\<close>, the counter of
  \<open>i\<close> and the status that \<open>Liveness\<close> reports for \<open>i\<close> are those of the same
  aggregator with a fresh counter for \<open>i\<close>.
\<close>

theorem success_resets_counter:
  assumes "wf_Health p" and "i \<in> set (checkers p)" and "notReadyCount p i = Some c"
    and "\<forall>k<length (checkers p). checkers p ! k = i \<longrightarrow> call k = None"
  shows "notReadyCount (receiver (Readiness p call)) i = Some 0
       \<and> counter_after (receiver (Readiness p call)) evs i
           = counter_after (p\<lparr>notReadyCount := (notReadyCount p)(i \<mapsto> 0)\<rparr>) evs i
       \<and> status_of (Liveness_after (receiver (Readiness p call)) evs lv) i
           = status_of (Liveness_after (p\<lparr>notReadyCount := (notReadyCount p)(i \<mapsto> 0)\<rparr>) evs lv) i"
proof -
  let ?p1 = "receiver (Readiness p call)" and ?p2 = "p\<lparr>notReadyCount := (notReadyCount p)(i \<mapsto> 0)\<rparr>"
  have z1: "notReadyCount ?p1 i = Some 0" by (rule Readiness_count_ok [OF assms(3,2,4)])
  have z2: "notReadyCount ?p2 i = Some 0" by simp
  have wf1: "wf_Health ?p1" by (rule Readiness_wf [OF assms(1)])
  have wf2: "wf_Health ?p2" using assms(1) by (auto simp: wf_Health_def list_all_iff)
  have cs: "checkers ?p1 = checkers p" "checkers ?p2 = checkers p"
    by (simp_all add: Readiness_checkers)
  have cf: "maxNotReadyConfig ?p1 = maxNotReadyConfig p" "maxNotReadyConfig ?p2 = maxNotReadyConfig p"
    by (simp_all add: Readiness_config)
  have after: "\<exists>q st. run q0 evs = Some q \<and> wf_Health q \<and> checkers q = checkers p
        \<and> maxNotReadyConfig q = maxNotReadyConfig p
        \<and> notReadyCount q i = Some (of_nat (run_streak (checkers p) i evs 0))
        \<and> Liveness q lv = Some st"
    if "wf_Health q0" "checkers q0 = checkers p" "maxNotReadyConfig q0 = maxNotReadyConfig p"
      "notReadyCount q0 i = Some 0" for q0
  proof -
    from run_inv [OF that(1), of evs] obtain q where
      q: "run q0 evs = Some q" "wf_Health q" "checkers q = checkers q0"
        "maxNotReadyConfig q = maxNotReadyConfig q0" by blast
    have "notReadyCount q0 i = Some (of_nat 0)" using that(4) by simp
    from run_count [OF that(1) this, of evs] q(1)
    have "notReadyCount q i = Some (of_nat (run_streak (checkers p) i evs 0))"
      by (simp add: counter_after_def that(2))
    moreover from Liveness_total [OF q(2), of lv] obtain st where "Liveness q lv = Some st" by blast
    ultimately show ?thesis using q that(2,3) by auto
  qed
  from after [OF wf1 cs(1) cf(1) z1] obtain q1 st1 where
    1: "run ?p1 evs = Some q1" "wf_Health q1" "checkers q1 = checkers p"
      "maxNotReadyConfig q1 = maxNotReadyConfig p"
      "notReadyCount q1 i = Some (of_nat (run_streak (checkers p) i evs 0))"
      "Liveness q1 lv = Some st1" by blast
  from after [OF wf2 cs(2) cf(2) z2] obtain q2 st2 where
    2: "run ?p2 evs = Some q2" "wf_Health q2" "checkers q2 = checkers p"
      "maxNotReadyConfig q2 = maxNotReadyConfig p"
      "notReadyCount q2 i = Some (of_nat (run_streak (checkers p) i evs 0))"
      "Liveness q2 lv = Some st2" by blast
  from last_occurrence [OF assms(2)] obtain k where
    k: "k < length (checkers p)" "checkers p ! k = i"
      "\<forall>j. k < j \<and> j < length (checkers p) \<longrightarrow> checkers p ! j \<noteq> i" by blast
  have r1: "res st1 i = Some (live_status q1 i (lv k))"
    using Liveness_last [OF 1(2) _ _ 1(6), of k] k 1(3) by simp
  have r2: "res st2 i = Some (live_status q2 i (lv k))"
    using Liveness_last [OF 2(2) _ _ 2(6), of k] k 2(3) by simp
  have "live_status q1 i (lv k) = live_status q2 i (lv k)"
    by (rule live_status_cong) (simp_all add: 1 2)
  with r1 r2 have "status_of (Liveness_after ?p1 evs lv) i = status_of (Liveness_after ?p2 evs lv) i"
    using 1(1,6) 2(1,6) by (simp add: status_of_def Liveness_after_def)
  moreover have "counter_after ?p1 evs i = counter_after ?p2 evs i"
    using 1(1,5) 2(1,5) by (simp add: counter_after_def)
  ultimately show ?thesis using z1 by simp
qed

theorem success_resets_counter_witness:
  "notReadyCount (receiver (Readiness (single ''db'' 2 7) always_ok)) ''db'' = Some 0
   \<and> counter_after (receiver (Readiness (single ''db'' 2 7) always_ok))
        (map ReadinessProbe [always_fail, always_fail]) ''db'' = Some 2
   \<and> status_of (Liveness_after (receiver (Readiness (single ''db'' 2 7) always_ok))
        (map ReadinessProbe [always_fail, always_fail]) always_ok) ''db''
       = Some \<lparr>Status = HealthStatusUp, Err = None\<rparr>"
proof -
  have "wf_Health (single ''db'' 2 7)" by (rule single_wf)
  moreover have "''db'' \<in> set (checkers (single ''db'' 2 7))"
    "notReadyCount (single ''db'' 2 7) ''db'' = Some 7"
    "\<forall>k<length (checkers (single ''db'' 2 7)). checkers (single ''db'' 2 7) ! k = ''db'' \<longrightarrow> always_ok k = None"
    by (simp_all add: single_def always_ok_def)
  ultimately have "notReadyCount (receiver (Readiness (single ''db'' 2 7) always_ok)) ''db'' = Some 0
       \<and> counter_after (receiver (Readiness (single ''db'' 2 7) always_ok))
            (map ReadinessProbe [always_fail, always_fail]) ''db''
           = counter_after ((single ''db'' 2 7)\<lparr>notReadyCount := (notReadyCount (single ''db'' 2 7))(''db'' \<mapsto> 0)\<rparr>)
               (map ReadinessProbe [always_fail, always_fail]) ''db''
       \<and> status_of (Liveness_after (receiver (Readiness (single ''db'' 2 7) always_ok))
            (map ReadinessProbe [always_fail, always_fail]) always_ok) ''db''
           = status_of (Liveness_after ((single ''db'' 2 7)\<lparr>notReadyCount := (notReadyCount (single ''db'' 2 7))(''db'' \<mapsto> 0)\<rparr>)
               (map ReadinessProbe [always_fail, always_fail]) always_ok) ''db''"
    by (rule success_resets_counter)
  moreover have "counter_after ((single ''db'' 2 7)\<lparr>notReadyCount := (notReadyCount (single ''db'' 2 7))(''db'' \<mapsto> 0)\<rparr>)
               (map ReadinessProbe [always_fail, always_fail]) ''db'' = Some 2"
    by (simp add: counter_after_def single_def Readiness_def calls_def Readiness_body_def
        always_fail_def Let_def)
  moreover have "status_of (Liveness_after ((single ''db'' 2 7)\<lparr>notReadyCount := (notReadyCount (single ''db'' 2 7))(''db'' \<mapsto> 0)\<rparr>)
               (map ReadinessProbe [always_fail, always_fail]) always_ok) ''db''
       = Some \<lparr>Status = HealthStatusUp, Err = None\<rparr>"
    by (simp add: status_of_def Liveness_after_def single_def Readiness_def Liveness_def calls_def
        Readiness_body_def Liveness_body_def always_fail_def always_ok_def Let_def)
  ultimately show ?thesis by simp
qed

text \<open>
  C5. An indicator \<open>i\<close> that declares no threshold, or a negative one, is reported
  \<open>UP\<close> by every \<open>Liveness\<close> probe in which its own check answers \<open>nil\<close>, after
  any sequence of probes \<open>evs\<close> with any answers; and overall liveness is decided by
  the other indicators alone.
\<close>

theorem unthresholded_never_escalates:
  assumes "i \<in> set cs"
    and "\<not> (\<exists>t. ReadinessThreshold i = Some t \<and> 0 \<le> t)"
    and "\<forall>k<length cs. cs ! k = i \<longrightarrow> lv k = None"
  shows "\<exists>p st. NewHealth ReadinessThreshold cs = Some p
           \<and> Liveness_after p evs lv = Some st
           \<and> res st i = Some \<lparr>Status = HealthStatusUp, Err = None\<rparr>
           \<and> overall st =
               (\<forall>k<length cs. cs ! k \<noteq> i \<longrightarrow> lv k = None \<and> \<not> exceeded (receiver st) (cs ! k))"
proof -
  from NewHealth_eq [of ReadinessThreshold cs] obtain p where
    p: "NewHealth ReadinessThreshold cs = Some p" "checkers p = cs"
      "\<forall>i. maxNotReadyConfig p i =
            (if i \<in> set cs
             then (case ReadinessThreshold i of None \<Rightarrow> None | Some t \<Rightarrow> if 0 \<le> t then Some t else None)
             else None)"
    by blast
  have none: "maxNotReadyConfig p i = None"
    using p(3) assms(2) by (auto split: option.splits)
  have wf: "wf_Health p" by (rule NewHealth_wf [OF p(1)])
  from run_inv [OF wf, of evs] obtain p' where
    p': "run p evs = Some p'" "wf_Health p'" "checkers p' = cs"
      "maxNotReadyConfig p' = maxNotReadyConfig p"
    using p(2) by auto
  have "i \<in> set (checkers p')" "\<forall>k<length (checkers p'). checkers p' ! k = i \<longrightarrow> lv k = None"
    using assms(1,3) p'(3) by simp_all
  from Liveness_own_ok [OF p'(2) this] obtain st where
    st: "Liveness p' lv = Some st" "receiver st = p'" "res st i = Some (live_status p' i None)"
      "overall st = (\<forall>k<length (checkers p'). lv k = None \<and> \<not> exceeded p' (checkers p' ! k))"
    by blast
  have nex: "\<not> exceeded p' i" using none p'(4) by (simp add: exceeded_def)
  have "Liveness_after p evs lv = Some st" using p'(1) st(1) by (simp add: Liveness_after_def)
  moreover have "res st i = Some \<lparr>Status = HealthStatusUp, Err = None\<rparr>"
    using st(3) nex by (simp add: live_status_def)
  moreover have "overall st =
      (\<forall>k<length cs. cs ! k \<noteq> i \<longrightarrow> lv k = None \<and> \<not> exceeded (receiver st) (cs ! k))"
    using st(2,4) p'(3) nex assms(3) by auto
  ultimately show ?thesis using p(1) by blast
qed

theorem unthresholded_never_escalates_witness:
  "(\<exists>p st. NewHealth undeclared [''cache''] = Some p
      \<and> Liveness_after p (map ReadinessProbe (replicate 100 always_fail)) always_ok = Some st
      \<and> res st ''cache'' = Some \<lparr>Status = HealthStatusUp, Err = None\<rparr>
      \<and> overall st)
   \<and> (\<exists>p st. NewHealth (declares (- 1)) [''cache''] = Some p
      \<and> Liveness_after p (map ReadinessProbe (replicate 100 always_fail)) always_ok = Some st
      \<and> res st ''cache'' = Some \<lparr>Status = HealthStatusUp, Err = None\<rparr>
      \<and> overall st)"
  using unthresholded_never_escalates [of "''cache''" "[''cache'']" undeclared always_ok
      "map ReadinessProbe (replicate 100 always_fail)"]
    unthresholded_never_escalates [of "''cache''" "[''cache'']" "declares (- 1)" always_ok
      "map ReadinessProbe (replicate 100 always_fail)"]
  by (simp add: undeclared_def declares_def always_ok_def)

text \<open>
  C6. A \<open>Liveness\<close> probe returns and leaves the aggregator as it was, counters
  included; so does any sequence of \<open>Liveness\<close> probes. Only \<open>Readiness\<close> writes
  counters.
\<close>

theorem Liveness_keeps_counters:
  assumes "wf_Health p"
  shows "run p (map LivenessProbe lvs) = Some p
       \<and> (\<exists>st. Liveness p lv = Some st \<and> notReadyCount (receiver st) = notReadyCount p)"
proof -
  have "run p (map LivenessProbe lvs) = Some p"
  proof (induction lvs)
    case Nil
    show ?case by simp
  next
    case (Cons a lvs)
    from Liveness_total [OF assms, of a] obtain st where
      "Liveness p a = Some st" "receiver st = p" by blast
    with Cons show ?case by simp
  qed
  moreover from Liveness_total [OF assms, of lv] obtain st where
    "Liveness p lv = Some st" "receiver st = p" by blast
  ultimately show ?thesis by auto
qed

theorem Liveness_keeps_counters_witness:
  "run (single ''db'' 2 3) (map LivenessProbe [always_ok, always_fail, always_ok])
     = Some (single ''db'' 2 3)
   \<and> (\<exists>st. Liveness (single ''db'' 2 3) always_fail = Some st
        \<and> notReadyCount (receiver st) = notReadyCount (single ''db'' 2 3))"
  by (rule Liveness_keeps_counters [OF single_wf])

text \<open>
  C7. Whatever the indicators answer, both probes call every registered indicator, in
  the order of registration, and the returned map has an entry for exactly the
  registered indicators.
\<close>

theorem probes_visit_every_indicator:
  assumes "wf_Health p"
  shows "invoked (Readiness p rd) = checkers p \<and> dom (res (Readiness p rd)) = set (checkers p)
       \<and> (\<exists>st. Liveness p lv = Some st \<and> invoked st = checkers p
            \<and> dom (res st) = set (checkers p))"
  using Liveness_total [OF assms, of lv] by (auto simp: Readiness_invoked Readiness_dom_res)

theorem probes_visit_every_indicator_witness:
  "invoked (Readiness two always_fail) = [''db'', ''cache'']
   \<and> dom (res (Readiness two always_fail)) = {''db'', ''cache''}
   \<and> (\<exists>st. Liveness two always_fail = Some st \<and> invoked st = [''db'', ''cache'']
        \<and> dom (res st) = {''db'', ''cache''})"
  using probes_visit_every_indicator [OF two_wf, of always_fail always_fail]
  by (simp add: two_def)

text \<open>
  C8, as the code has it. After any sequence of probes on a fresh aggregator, the
  counter of \<open>i\<close> is the number of failed \<open>Readiness\<close> calls of \<open>i\<close> since its last
  successful one, as long as that number is below \<open>2\<^sup>3\<^sup>1\<close>; then it is not negative.
\<close>

theorem counter_is_current_streak:
  assumes "NewHealth ReadinessThreshold cs = Some p0" and "run p0 evs = Some p"
    and "notReadyCount p i = Some c"
    and "run_streak cs i evs 0 < 2147483648"
  shows "sint c = int (run_streak cs i evs 0) \<and> 0 \<le> sint c"
proof -
  from NewHealth_eq [of ReadinessThreshold cs] assms(1) have
    p0: "checkers p0 = cs"
      "\<forall>i. notReadyCount p0 i = (if maxNotReadyConfig p0 i = None then None else Some 0)"
    by auto
  have wf: "wf_Health p0" by (rule NewHealth_wf [OF assms(1)])
  from run_inv [OF wf, of evs] assms(2) have "dom (notReadyCount p) = dom (notReadyCount p0)"
    by auto
  then have "i \<in> dom (notReadyCount p0)" using assms(3) by auto
  then have "notReadyCount p0 i = Some (of_nat 0)" using p0(2) by (auto split: if_splits)
  from run_count [OF wf this, of evs] have "c = of_nat (run_streak cs i evs 0)"
    using assms(2,3) p0(1) by (simp add: counter_after_def)
  then show ?thesis using sint_int32_of_nat [OF assms(4)] by simp
qed

theorem counter_is_current_streak_witness:
  "sint (3 :: 32 word) = int (run_streak [''db''] ''db''
       (map ReadinessProbe [always_fail, always_ok, always_fail, always_fail, always_fail]) 0)
   \<and> 0 \<le> sint (3 :: 32 word)"
proof -
  let ?evs = "map ReadinessProbe [always_fail, always_ok, always_fail, always_fail, always_fail]"
  have 1: "NewHealth (declares 2) [''db''] = Some (single ''db'' 2 0)"
    by (simp add: NewHealth_def thresholdedReadinessReporters_def declares_def single_def)
  have 2: "run (single ''db'' 2 0) ?evs = Some (single ''db'' 2 3)"
    by (simp add: single_def Readiness_def calls_def Readiness_body_def always_fail_def
        always_ok_def Let_def)
  have 3: "notReadyCount (single ''db'' 2 3) ''db'' = Some 3" by (simp add: single_def)
  have 4: "run_streak [''db''] ''db'' ?evs 0 < 2147483648"
    by (simp add: calls_def always_fail_def always_ok_def)
  from counter_is_current_streak [OF 1 2 3 4] show ?thesis .
qed

text \<open>
  C8 as stated fails: after \<open>2\<^sup>3\<^sup>1\<close> failed \<open>Readiness\<close> probes in a row the counter
  of \<open>db\<close> is \<open>-2\<^sup>3\<^sup>1\<close>.
\<close>

theorem counter_negative_after_wrap:
  "NewHealth (declares 0) [''db''] = Some (single ''db'' 0 0)
   \<and> map_option sint (counter_after (single ''db'' 0 0)
        (map ReadinessProbe (replicate 2147483648 always_fail)) ''db'') = Some (- 2147483648)"
proof -
  let ?p = "single ''db'' 0 0"
  have "\<forall>f\<in>set (replicate 2147483648 always_fail). \<forall>k<length (checkers ?p). checkers ?p ! k = ''db'' \<longrightarrow> f k \<noteq> None"
    by (simp add: always_fail_def)
  from run_streak_fail [OF this, of 0]
  have s: "run_streak (checkers ?p) ''db'' (map ReadinessProbe (replicate 2147483648 always_fail)) 0
      = 2147483648"
    by (simp add: single_def)
  have "notReadyCount ?p ''db'' = Some (of_nat 0)" by (simp add: single_def)
  from run_count [OF single_wf this, of "map ReadinessProbe (replicate 2147483648 always_fail)"]
  have "counter_after ?p (map ReadinessProbe (replicate 2147483648 always_fail)) ''db''
      = Some (of_nat 2147483648)"
    by (simp only: s)
  moreover have "NewHealth (declares 0) [''db''] = Some ?p"
    by (simp add: NewHealth_def thresholdedReadinessReporters_def declares_def single_def)
  ultimately show ?thesis by simp
qed

text \<open>
  C10. Let \<open>i\<close> be registered several times, \<open>k\<close> its last index. Each probe calls
  \<open>i\<close> once per occurrence; the returned map has one entry per distinct indicator, and
  the entry of \<open>i\<close> is the status of the call at \<open>k\<close>; \<open>NewHealth\<close> gives \<open>i\<close> one
  threshold and one counter; a \<open>Readiness\<close> probe in which every call of \<open>i\<close> fails
  adds the number of occurrences to the counter.
\<close>

theorem repeated_indicator:
  assumes "wf_Health p" and "k < length (checkers p)" and "checkers p ! k = i"
    and "\<forall>j. k < j \<and> j < length (checkers p) \<longrightarrow> checkers p ! j \<noteq> i"
  shows "count_list (invoked (Readiness p call)) i = count_list (checkers p) i
       \<and> res (Readiness p call) i =
           Some (case call k of None \<Rightarrow> \<lparr>Status = HealthStatusUp, Err = None\<rparr>
                 | Some err \<Rightarrow> \<lparr>Status = HealthUnavailable, Err = Some err\<rparr>)
       \<and> card (dom (res (Readiness p call))) = card (set (checkers p))
       \<and> (\<exists>st. Liveness p call = Some st
            \<and> count_list (invoked st) i = count_list (checkers p) i
            \<and> res st i = Some (live_status p i (call k))
            \<and> card (dom (res st)) = card (set (checkers p)))
       \<and> (\<forall>c. notReadyCount p i = Some c
              \<and> (\<forall>j<length (checkers p). checkers p ! j = i \<longrightarrow> call j \<noteq> None) \<longrightarrow>
            notReadyCount (receiver (Readiness p call)) i
              = Some (c + of_nat (count_list (checkers p) i)))
       \<and> (\<exists>p0. NewHealth ReadinessThreshold (checkers p) = Some p0
            \<and> maxNotReadyConfig p0 i =
                (case ReadinessThreshold i of None \<Rightarrow> None
                 | Some t \<Rightarrow> if 0 \<le> t then Some t else None)
            \<and> notReadyCount p0 i = (if maxNotReadyConfig p0 i = None then None else Some 0))"
proof -
  have i: "i \<in> set (checkers p)" using assms(2,3) by (auto simp: in_set_conv_nth)
  from NewHealth_eq [of ReadinessThreshold "checkers p"] i
  have new: "\<exists>p0. NewHealth ReadinessThreshold (checkers p) = Some p0
            \<and> maxNotReadyConfig p0 i =
                (case ReadinessThreshold i of None \<Rightarrow> None
                 | Some t \<Rightarrow> if 0 \<le> t then Some t else None)
            \<and> notReadyCount p0 i = (if maxNotReadyConfig p0 i = None then None else Some 0)"
    by auto
  have a: "\<forall>j. k < j \<and> j < length (checkers p) \<longrightarrow> checkers p ! j \<noteq> checkers p ! k"
    using assms(3,4) by simp
  from Liveness_total [OF assms(1), of call] obtain st where
    st: "Liveness p call = Some st" "invoked st = checkers p" "dom (res st) = set (checkers p)"
    by blast
  have "res st i = Some (live_status p i (call k))"
    using Liveness_last [OF assms(1,2) a st(1)] assms(3) by simp
  moreover have "res (Readiness p call) i =
           Some (case call k of None \<Rightarrow> \<lparr>Status = HealthStatusUp, Err = None\<rparr>
                 | Some err \<Rightarrow> \<lparr>Status = HealthUnavailable, Err = Some err\<rparr>)"
    using Readiness_last [OF assms(2) a, of call] assms(3) by simp
  ultimately show ?thesis
    using st new by (auto simp: Readiness_invoked Readiness_dom_res Readiness_count_fail)
qed

theorem repeated_indicator_witness:
  "count_list (invoked (Readiness twice first_fails)) ''db'' = 2
   \<and> res (Readiness twice first_fails) ''db'' = Some \<lparr>Status = HealthStatusUp, Err = None\<rparr>
   \<and> card (dom (res (Readiness twice first_fails))) = 1
   \<and> (\<exists>st. Liveness twice first_fails = Some st
        \<and> count_list (invoked st) ''db'' = 2
        \<and> res st ''db'' = Some \<lparr>Status = HealthStatusUp, Err = None\<rparr>
        \<and> card (dom (res st)) = 1)
   \<and> notReadyCount (receiver (Readiness twice always_fail)) ''db'' = Some 2
   \<and> NewHealth (declares 2) [''db'', ''db''] = Some twice"
proof -
  have wf: "wf_Health twice" by (simp add: twice_def wf_Health_def)
  have k: "(1::nat) < length (checkers twice)" "checkers twice ! 1 = ''db''"
    "\<forall>j. 1 < j \<and> j < length (checkers twice) \<longrightarrow> checkers twice ! j \<noteq> ''db''"
    by (auto simp: twice_def)
  have c: "count_list (checkers twice) ''db'' = 2" "card (set (checkers twice)) = 1"
    by (simp_all add: twice_def)
  have s: "live_status twice ''db'' None = \<lparr>Status = HealthStatusUp, Err = None\<rparr>"
    by (simp add: live_status_def exceeded_def twice_def)
  have f: "notReadyCount twice ''db'' = Some 0
      \<and> (\<forall>j<length (checkers twice). checkers twice ! j = ''db'' \<longrightarrow> always_fail j \<noteq> None)"
    by (simp add: twice_def always_fail_def)
  have n: "NewHealth (declares 2) [''db'', ''db''] = Some twice"
    by (simp add: NewHealth_def thresholdedReadinessReporters_def declares_def twice_def)
  from repeated_indicator [OF wf k, of first_fails] repeated_indicator [OF wf k, of always_fail] f n
  show ?thesis by (simp add: c s first_fails_def)
qed

section \<open>Properties of the required-field check\<close>

lemma field_tree_eq: "field_tree f = f # fields_of (content f)"
  by (cases f) simp

lemma no_panic:
  shows "list_all exported (fields_tree c) \<Longrightarrow> list_all nonnil_pointer vals \<Longrightarrow>
           checkRequired c vals \<noteq> Panic"
    and "list_all exported (fields_tree c) \<Longrightarrow> list_all nonnil_pointer vals \<Longrightarrow>
           list_all nonnil_pointer rest \<Longrightarrow> vals_loop c vals rest \<noteq> Panic"
    and "list_all exported (fields_tree flds) \<Longrightarrow> list_all nonnil_pointer vals \<Longrightarrow>
           f \<noteq> None \<Longrightarrow> fields_loop vals f flds \<noteq> Panic"
proof (induction c vals and c vals rest and vals f flds
    rule: checkRequired_vals_loop_fields_loop.induct)
  case (1 c vals)
  then show ?case by simp
next
  case (2 c vals)
  then show ?case by simp
next
  case (3 c vals ptr rest)
  then show ?case
    by (cases ptr) (auto split: result.splits option.splits)
next
  case (4 vals f)
  then show ?case by simp
next
  case (5 vals f valueField flds)
  then show ?case
    by (auto simp: field_tree_eq split: content.splits result.splits option.splits if_splits)
qed

lemma error_names_missing:
  shows "list_all nonnil_pointer vals \<Longrightarrow> checkRequired c vals = Return (Some e) \<Longrightarrow>
           \<exists>g\<in>set (fields_tree c). required vals g \<and> IsZero (content g)
              \<and> e = UnsetError (Name g) (configName g)"
    and "list_all nonnil_pointer vals \<Longrightarrow> set rest \<subseteq> set vals \<Longrightarrow>
           vals_loop c vals rest = Return (Some e) \<Longrightarrow>
           \<exists>g\<in>set (fields_tree c). required vals g \<and> IsZero (content g)
              \<and> e = UnsetError (Name g) (configName g)"
    and "list_all nonnil_pointer vals \<Longrightarrow> f = Some a \<Longrightarrow> Pointer a \<in> set vals \<Longrightarrow>
           fields_loop vals f flds = Return (Some e) \<Longrightarrow>
           \<exists>g\<in>set (fields_tree flds). required vals g \<and> IsZero (content g)
              \<and> e = UnsetError (Name g) (configName g)"
proof (induction c vals and c vals rest and vals f flds arbitrary: e and e and e a
    rule: checkRequired_vals_loop_fields_loop.induct)
  case (1 c vals)
  then show ?case by simp
next
  case (2 c vals)
  then show ?case by simp
next
  case (3 c vals ptr rest)
  then show ?case
    by (cases ptr) (auto simp: list_all_iff split: result.splits option.splits)
next
  case (4 vals f)
  then show ?case by simp
next
  case (5 vals f valueField flds)
  define nr where "nr = (case content valueField of
              Struct nested \<Rightarrow>
                if exported valueField then checkRequired nested vals else Panic
            | Scalar z \<Rightarrow> Return None)"
  have tree: "set (fields_tree (valueField # flds)) =
      insert valueField (set (fields_of (content valueField)) \<union> set (fields_tree flds))"
    by (simp add: field_tree_eq)
  show ?case
  proof (cases nr)
    case Panic
    then have "fields_loop vals f (valueField # flds) = Panic" by (simp add: nr_def)
    with "5.prems" show ?thesis by simp
  next
    case (Return r)
    show ?thesis
    proof (cases r)
      case (Some e')
      with Return have res: "fields_loop vals f (valueField # flds) = Return (Some e')"
        by (simp add: nr_def)
      from Some Return obtain nested where
        n: "content valueField = Struct nested" "exported valueField"
          "checkRequired nested vals = Return (Some e')"
        by (auto simp: nr_def split: content.splits if_splits)
      from "5.IH"(1) [OF n(1,2) "5.prems"(1) n(3)] obtain g where
        "g \<in> set (fields_tree nested)" "required vals g" "IsZero (content g)"
        "e' = UnsetError (Name g) (configName g)" by blast
      moreover have "e = e'" using res "5.prems"(4) by simp
      ultimately show ?thesis unfolding tree using n(1) by auto
    next
      case None
      with Return have nr: "nr = Return None" by simp
      show ?thesis
      proof (cases "address valueField = a")
        case True
        show ?thesis
        proof (cases "IsZero (content valueField)")
          case True
          with \<open>address valueField = a\<close> nr "5.prems"
          have "e = UnsetError (Name valueField) (configName valueField)"
            by (auto simp: nr_def split: if_splits)
          moreover have "required vals valueField"
            using \<open>address valueField = a\<close> "5.prems"(3) by (simp add: required_def)
          ultimately show ?thesis unfolding tree using True by blast
        next
          case False
          with True nr "5.prems" have
            ex: "exported valueField" and
            rest: "fields_loop vals f flds = Return (Some e)"
            by (auto simp: nr_def split: if_splits)
          from "5.IH"(2) [OF nr [unfolded nr_def] refl _ "5.prems"(2) True False "5.prems"(1,2,3) rest] ex
          show ?thesis unfolding tree by auto
        qed
      next
        case False
        with nr "5.prems" have
          ex: "exported valueField" and
          rest: "fields_loop vals f flds = Return (Some e)"
          by (auto simp: nr_def split: if_splits)
        from "5.IH"(3) [OF nr [unfolded nr_def] refl _ "5.prems"(2) False "5.prems"(1,2,3) rest] ex
        show ?thesis unfolding tree by auto
      qed
    qed
  qed
qed

lemma fields_tree_set:
  "set (fields_tree c) = set c \<union> (\<Union>g\<in>set c. set (fields_of (content g)))"
  by (induction c) (auto simp: field_tree_eq)

lemma none_means_set:
  shows "list_all nonnil_pointer vals \<Longrightarrow> checkRequired c vals = Return None \<Longrightarrow>
           \<forall>g\<in>set (fields_tree c). required vals g \<longrightarrow> \<not> IsZero (content g)"
    and "list_all nonnil_pointer vals \<Longrightarrow> vals_loop c vals rest = Return None \<Longrightarrow>
           \<forall>a. Pointer a \<in> set rest \<longrightarrow>
             (\<forall>g\<in>set c. (address g = a \<longrightarrow> \<not> IsZero (content g))
                \<and> (\<forall>h\<in>set (fields_of (content g)). required vals h \<longrightarrow> \<not> IsZero (content h)))"
    and "list_all nonnil_pointer vals \<Longrightarrow> f = Some a \<Longrightarrow>
           fields_loop vals f flds = Return None \<Longrightarrow>
           \<forall>g\<in>set flds. (address g = a \<longrightarrow> \<not> IsZero (content g))
              \<and> (\<forall>h\<in>set (fields_of (content g)). required vals h \<longrightarrow> \<not> IsZero (content h))"
proof (induction c vals and c vals rest and vals f flds arbitrary: and and a
    rule: checkRequired_vals_loop_fields_loop.induct)
  case (1 c vals)
  then have q: "\<forall>a. Pointer a \<in> set vals \<longrightarrow>
             (\<forall>g\<in>set c. (address g = a \<longrightarrow> \<not> IsZero (content g))
                \<and> (\<forall>h\<in>set (fields_of (content g)). required vals h \<longrightarrow> \<not> IsZero (content h)))"
    by simp
  show ?case
  proof (intro ballI impI)
    fix g assume g: "g \<in> set (fields_tree c)" "required vals g"
    then have p: "Pointer (address g) \<in> set vals" by (simp add: required_def)
    from g(1) consider "g \<in> set c" | g' where "g' \<in> set c" "g \<in> set (fields_of (content g'))"
      by (auto simp: fields_tree_set)
    then show "\<not> IsZero (content g)"
    proof cases
      case 1
      with q p show ?thesis by blast
    next
      case 2
      with q p g(2) show ?thesis by blast
    qed
  qed
next
  case (2 c vals)
  then show ?case by simp
next
  case (3 c vals ptr rest)
  show ?case
  proof (cases ptr)
    case NilInterface
    with "3.prems" show ?thesis by simp
  next
    case NotPointer
    with "3.prems" show ?thesis by simp
  next
    case NilPointer
    with "3.prems" have a: "fields_loop vals None c = Return None" "vals_loop c vals rest = Return None"
      by (auto split: result.splits option.splits)
    from "3.IH"(2) [OF NilPointer a(1) refl "3.prems"(1) a(2)] NilPointer show ?thesis by simp
  next
    case (Pointer b)
    with "3.prems" have a: "fields_loop vals (Some b) c = Return None" "vals_loop c vals rest = Return None"
      by (auto split: result.splits option.splits)
    from "3.IH"(4) [OF Pointer a(1) refl "3.prems"(1) a(2)]
      "3.IH"(3) [OF Pointer "3.prems"(1) refl a(1)] Pointer
    show ?thesis by auto
  qed
next
  case (4 vals f)
  then show ?case by simp
next
  case (5 vals f valueField flds)
  define nr where "nr = (case content valueField of
              Struct nested \<Rightarrow>
                if exported valueField then checkRequired nested vals else Panic
            | Scalar z \<Rightarrow> Return None)"
  have nr: "nr = Return None"
    using "5.prems"(3) by (auto simp: nr_def split: result.splits option.splits)
  have ex: "exported valueField"
    using "5.prems"(3) nr by (auto simp: nr_def split: if_splits)
  have nested: "\<forall>h\<in>set (fields_of (content valueField)). required vals h \<longrightarrow> \<not> IsZero (content h)"
  proof (cases "content valueField")
    case (Scalar z)
    then show ?thesis by simp
  next
    case (Struct nested)
    with nr ex have "checkRequired nested vals = Return None" by (simp add: nr_def)
    from "5.IH"(1) [OF Struct ex "5.prems"(1) this] Struct show ?thesis by simp
  qed
  show ?case
  proof (cases "address valueField = a")
    case True
    with "5.prems" nr ex have z: "\<not> IsZero (content valueField)"
      and rest: "fields_loop vals f flds = Return None"
      by (auto simp: nr_def split: if_splits)
    from "5.IH"(2) [OF nr [unfolded nr_def] refl _ "5.prems"(2) True z "5.prems"(1,2) rest] ex z nested
    show ?thesis by auto
  next
    case False
    with "5.prems" nr ex have rest: "fields_loop vals f flds = Return None"
      by (auto simp: nr_def split: if_splits)
    from "5.IH"(3) [OF nr [unfolded nr_def] refl _ "5.prems"(2) False "5.prems"(1,2) rest] ex False nested
    show ?thesis by auto
  qed
qed

lemma checkRequired_total:
  assumes "list_all exported (fields_tree c)" and "list_all nonnil_pointer vals"
  shows "\<exists>r. checkRequired c vals = Return r"
  using no_panic(1) [OF assms] by (cases "checkRequired c vals") simp_all

subsection \<open>Claims\<close>

text \<open>
  C9, as the code has it. Let every field of the configuration be exported and every
  entry of \<open>RequiredValues()\<close> a pointer that is not \<open>nil\<close>, and let loading succeed.
  If a field that an entry points to is zero, \<open>LoadJSONConfig\<close> returns the error of one
  such field, with the field's name and its \<open>configName\<close> (the tag \<open>json\<close>, else
  \<open>mapstructure\<close>, else the name). If none is zero, it returns no error.
\<close>

theorem required_check_names_one_missing_field:
  assumes "list_all exported (fields_tree c)" and "list_all nonnil_pointer requireds"
  shows "((\<exists>g\<in>set (fields_tree c). required requireds g \<and> IsZero (content g)) \<longrightarrow>
            (\<exists>g\<in>set (fields_tree c). required requireds g \<and> IsZero (content g)
               \<and> LoadJSONConfig None None c requireds
                   = Return (Some (UnsetError (Name g) (configName g)))))
       \<and> ((\<forall>g\<in>set (fields_tree c). required requireds g \<longrightarrow> \<not> IsZero (content g)) \<longrightarrow>
            LoadJSONConfig None None c requireds = Return None)"
proof -
  have eq: "LoadJSONConfig None None c requireds = checkRequired c requireds"
    by (cases requireds) (simp_all add: LoadJSONConfig_def)
  from checkRequired_total [OF assms] obtain r where r: "checkRequired c requireds = Return r"
    by blast
  show ?thesis
  proof (cases r)
    case None
    with r none_means_set(1) [OF assms(2), of c] eq show ?thesis by auto
  next
    case (Some e)
    with r error_names_missing(1) [OF assms(2), of c e] eq show ?thesis by auto
  qed
qed

theorem required_check_names_one_missing_field_witness:
  "(\<exists>g\<in>set (fields_tree (myRequiredConfig True True)).
      required [Pointer 10] g \<and> IsZero (content g)
      \<and> LoadJSONConfig None None (myRequiredConfig True True) [Pointer 10]
          = Return (Some (UnsetError (Name g) (configName g))))
   \<and> LoadJSONConfig None None (myRequiredConfig True True) [Pointer 10]
     = Return (Some (UnsetError ''Required'' ''required''))
   \<and> config_error_text ascii_upper (UnsetError ''Required'' ''required'')
     = ''[Required] is config, consider setting value: [required] in config file or [REQUIRED] in env''
   \<and> LoadJSONConfig None None (myRequiredConfig False True) [Pointer 10] = Return None"
proof -
  have ex: "list_all exported (fields_tree (myRequiredConfig a b))" for a b
    by (simp add: myRequiredConfig_def)
  have p: "list_all nonnil_pointer [Pointer 10]" by simp
  have 1: "\<exists>g\<in>set (fields_tree (myRequiredConfig True True)).
      required [Pointer 10] g \<and> IsZero (content g)"
    by (rule bexI [of _ "Field ''Required'' ''required'' [] True 10 (Scalar True)"])
      (simp_all add: myRequiredConfig_def required_def)
  have 2: "\<forall>g\<in>set (fields_tree (myRequiredConfig False True)).
      required [Pointer 10] g \<longrightarrow> \<not> IsZero (content g)"
    by (simp add: myRequiredConfig_def required_def)
  from required_check_names_one_missing_field [OF ex p, of True True] 1
  have a: "\<exists>g\<in>set (fields_tree (myRequiredConfig True True)).
      required [Pointer 10] g \<and> IsZero (content g)
      \<and> LoadJSONConfig None None (myRequiredConfig True True) [Pointer 10]
          = Return (Some (UnsetError (Name g) (configName g)))"
    by blast
  from required_check_names_one_missing_field [OF ex p, of False True] 2
  have b: "LoadJSONConfig None None (myRequiredConfig False True) [Pointer 10] = Return None"
    by blast
  have c: "LoadJSONConfig None None (myRequiredConfig True True) [Pointer 10]
     = Return (Some (UnsetError ''Required'' ''required''))"
    by (simp add: LoadJSONConfig_def myRequiredConfig_def configName_def)
  have d: "config_error_text ascii_upper (UnsetError ''Required'' ''required'')
     = ''[Required] is config, consider setting value: [required] in config file or [REQUIRED] in env''"
    by code_simp
  from a b c d show ?thesis by blast
qed

text \<open>
  C9 as stated fails: with \<open>Required\<close> and \<open>Other\<close> both required and both unset, the
  error names \<open>Required\<close> alone; \<open>Other\<close> is reported only once \<open>Required\<close> is set.
\<close>

theorem required_check_reports_first_only:
  "LoadJSONConfig None None (myRequiredConfig True True) [Pointer 10, Pointer 11]
     = Return (Some (UnsetError ''Required'' ''required''))
   \<and> config_error_text ascii_upper (UnsetError ''Required'' ''required'')
     = ''[Required] is config, consider setting value: [required] in config file or [REQUIRED] in env''
   \<and> LoadJSONConfig None None (myRequiredConfig False True) [Pointer 10, Pointer 11]
     = Return (Some (UnsetError ''Other'' ''Other''))"
proof -
  have "LoadJSONConfig None None (myRequiredConfig True True) [Pointer 10, Pointer 11]
     = Return (Some (UnsetError ''Required'' ''required''))"
    by (simp add: LoadJSONConfig_def myRequiredConfig_def configName_def)
  moreover have "config_error_text ascii_upper (UnsetError ''Required'' ''required'')
     = ''[Required] is config, consider setting value: [required] in config file or [REQUIRED] in env''"
    by code_simp
  moreover have "LoadJSONConfig None None (myRequiredConfig False True) [Pointer 10, Pointer 11]
     = Return (Some (UnsetError ''Other'' ''Other''))"
    by (simp add: LoadJSONConfig_def myRequiredConfig_def configName_def)
  ultimately show ?thesis by blast
qed

end
